theory Spec2Isabelle
  imports Complex_Main "HOL-Library.Multiset" "HOL-Library.List_Lexorder" "HOL-Library.Char_ord"
    "HOL-Library.Product_Lexorder" "HOL-Library.Log_Nat"
begin

section \<open>Python values shared by both scripts\<close>

text \<open>
  The exceptions the modelled code can raise.  A computation that may raise returns
  \<open>py_error + 'a\<close>, with \<open>Inl\<close> carrying the exception.
\<close>

datatype py_error =
    IndexError
  | KeyError
  | OverflowError
  | UnicodeDecodeError
  | ParserError string
  | EmptyDataError string

text \<open>Python list indexing \<open>xs[i]\<close>: a negative index counts from the end, an index
  outside the list raises \<open>IndexError\<close>.\<close>

definition getitem :: "'a list \<Rightarrow> int \<Rightarrow> py_error + 'a" where
  "getitem xs i =
     (if 0 \<le> i \<and> i < int (length xs) then Inr (xs ! nat i)
      else if i < 0 \<and> - int (length xs) \<le> i then Inr (xs ! nat (int (length xs) + i))
      else Inl IndexError)"

section \<open>aifinger.py: the finger-state classifier\<close>

text \<open>
  A landmark of the hand detector carries normalised coordinates; the classifier reads
  \<open>.x\<close> and \<open>.y\<close> only.  A hand observation is the detector's message whose field
  \<open>landmark\<close> is the list of landmarks.
\<close>

record NormalizedLandmark =
  x :: real
  y :: real
  z :: real

record NormalizedLandmarkList =
  landmark :: "NormalizedLandmark list"

definition tip_ids :: "int list" where
  "tip_ids = [4, 8, 12, 16, 20]"

text \<open>The thumb test of lines 17-20: the list \<open>fingers\<close> after the first append.\<close>

definition thumb_state :: "NormalizedLandmarkList \<Rightarrow> py_error + int list" where
  "thumb_state h =
     (case getitem tip_ids 0 of Inl e \<Rightarrow> Inl e | Inr t \<Rightarrow>
      case getitem (landmark h) t of Inl e \<Rightarrow> Inl e | Inr tip \<Rightarrow>
      case getitem (landmark h) (t - 1) of Inl e \<Rightarrow> Inl e | Inr prev \<Rightarrow>
        Inr ([] @ [if x tip < x prev then 1 else 0]))"

text \<open>The loop \<open>for id in range(1, 5)\<close> of lines 23-27, threading the list \<open>fingers\<close>.\<close>

fun other_fingers :: "NormalizedLandmarkList \<Rightarrow> int list \<Rightarrow> int list \<Rightarrow> py_error + int list" where
  "other_fingers h [] fingers = Inr fingers"
| "other_fingers h (i # ids) fingers =
     (case getitem tip_ids i of Inl e \<Rightarrow> Inl e | Inr t \<Rightarrow>
      case getitem (landmark h) t of Inl e \<Rightarrow> Inl e | Inr tip \<Rightarrow>
      case getitem (landmark h) (t - 2) of Inl e \<Rightarrow> Inl e | Inr joint \<Rightarrow>
        other_fingers h ids (fingers @ [if y tip < y joint then 1 else 0]))"

text \<open>The list \<open>fingers\<close> as it stands when \<open>count_fingers\<close> reaches its return.\<close>

definition finger_states :: "NormalizedLandmarkList \<Rightarrow> py_error + int list" where
  "finger_states h =
     (case thumb_state h of Inl e \<Rightarrow> Inl e
      | Inr fingers \<Rightarrow> other_fingers h [1, 2, 3, 4] fingers)"

definition count_fingers :: "NormalizedLandmarkList \<Rightarrow> py_error + int" where
  "count_fingers h =
     (case finger_states h of Inl e \<Rightarrow> Inl e | Inr fingers \<Rightarrow> Inr (sum_list fingers))"

text \<open>Line 39: \<open>"Even" if finger_count % 2 == 0 else "Odd"\<close>.\<close>

definition parity :: "int \<Rightarrow> string" where
  "parity finger_count = (if finger_count mod 2 = 0 then ''Even'' else ''Odd'')"

section \<open>streamlit_app.py: the byte-size formatter\<close>

text \<open>
  \<open>num_bytes\<close> is an \<open>int\<close> on entry and a \<open>float\<close> after the first \<open>/= 1024\<close>.  A
  float is modelled by the rational number it denotes: every finite IEEE-754 double is a
  rational.  The results of the float operations the function uses are rounded to the
  nearest double, ties to the even significand, by \<open>round_double\<close>; Python raises
  \<open>OverflowError\<close> where the rounded result is not finite (\<open>int / int\<close> and the
  conversion of an \<open>int\<close> to \<open>float\<close> that \<open>format\<close> makes).  Negative zero, the
  infinities and NaN are not values of the model; the function never produces them.
\<close>

definition round_half_even :: "rat \<Rightarrow> int" where
  "round_half_even q =
     (let f = \<lfloor>q\<rfloor>; d = q - of_int f
      in if d < 1 / 2 then f else if 1 / 2 < d then f + 1 else if even f then f else f + 1)"

text \<open>The binary exponent of a non-zero rational: \<open>2 ^ e \<le> \<bar>q\<bar> < 2 ^ (e + 1)\<close>.\<close>

definition float_exponent :: "rat \<Rightarrow> int" where
  "float_exponent q =
     (if 1 \<le> \<bar>q\<bar> then bitlen \<lfloor>\<bar>q\<bar>\<rfloor> - 1 else - bitlen (\<lceil>1 / \<bar>q\<bar>\<rceil> - 1))"

text \<open>Rounding to a double: 53 significant bits, the least exponent of the last place
  \<open>-1074\<close> (subnormal numbers), overflow from \<open>2 ^ 1024\<close> on.\<close>

definition round_double :: "rat \<Rightarrow> py_error + rat" where
  "round_double q =
     (if q = 0 then Inr 0
      else let p = max (float_exponent q - 52) (- 1074);
               m = round_half_even (\<bar>q\<bar> / 2 powi p);
               r = sgn q * of_int m * 2 powi p
           in if 2 ^ 1024 \<le> \<bar>r\<bar> then Inl OverflowError else Inr r)"

text \<open>The magnitude of the rounded number when \<open>1 \<le> \<bar>q\<bar>\<close>, before the test for
  overflow: the significand that \<open>round_double\<close> computes, scaled back.\<close>

definition rounded_abs :: "rat \<Rightarrow> rat" where
  "rounded_abs q =
     of_int (round_half_even (\<bar>q\<bar> / 2 powi (float_exponent q - 52))) * 2 powi (float_exponent q - 52)"

datatype pynum = PyInt int | PyFloat rat

text \<open>\<open>num_bytes < 1024\<close>: Python compares an \<open>int\<close> or a \<open>float\<close> with an \<open>int\<close> exactly.\<close>

fun lt_1024 :: "pynum \<Rightarrow> bool" where
  "lt_1024 (PyInt n) = (n < 1024)"
| "lt_1024 (PyFloat q) = (q < 1024)"

text \<open>\<open>num_bytes /= 1024\<close>: true division, the result a float.\<close>

fun truediv_1024 :: "pynum \<Rightarrow> py_error + pynum" where
  "truediv_1024 (PyInt n) = map_sum id PyFloat (round_double (of_int n / 1024))"
| "truediv_1024 (PyFloat q) = map_sum id PyFloat (round_double (q / 1024))"

definition digit_char :: "nat \<Rightarrow> char" where
  "digit_char d = ''0123456789'' ! d"

fun decimal_digits :: "nat \<Rightarrow> string" where
  "decimal_digits n =
     (if n < 10 then [digit_char n] else decimal_digits (n div 10) @ [digit_char (n mod 10)])"

text \<open>The format \<open>.2f\<close> of a float: the decimal with two fractional digits nearest to the
  float's exact value, ties to even.\<close>

definition fixed_2f :: "rat \<Rightarrow> string" where
  "fixed_2f q =
     (let c = nat \<bar>round_half_even (q * 100)\<bar>
      in (if q < 0 then ''-'' else []) @ decimal_digits (c div 100) @ ''.''
           @ [digit_char (c div 10 mod 10), digit_char (c mod 10)])"

text \<open>\<open>f"{num_bytes:.2f}"\<close>: an \<open>int\<close> is converted to \<open>float\<close> first.\<close>

fun format_2f :: "pynum \<Rightarrow> py_error + string" where
  "format_2f (PyInt n) = map_sum id fixed_2f (round_double (of_int n))"
| "format_2f (PyFloat q) = Inr (fixed_2f q)"

text \<open>The \<open>for\<close> loop over the units.  The result \<open>None\<close> is Python's \<open>None\<close>, returned
  when the loop ends without reaching a \<open>return\<close>.\<close>

fun format_bytes_loop :: "string list \<Rightarrow> pynum \<Rightarrow> py_error + string option" where
  "format_bytes_loop [] num_bytes = Inr None"
| "format_bytes_loop (unit # units) num_bytes =
     (if lt_1024 num_bytes \<or> unit = ''TiB''
      then map_sum id (\<lambda>s. Some (s @ '' '' @ unit)) (format_2f num_bytes)
      else case truediv_1024 num_bytes of
             Inl e \<Rightarrow> Inl e
           | Inr q \<Rightarrow> format_bytes_loop units q)"

definition format_bytes :: "int \<Rightarrow> py_error + string option" where
  "format_bytes num_bytes =
     format_bytes_loop [''B'', ''KiB'', ''MiB'', ''GiB'', ''TiB''] (PyInt num_bytes)"

text \<open>
  The formatter of the specification, written from its words and in exact arithmetic:
  divide by 1024 and advance to the next unit until the magnitude is below 1024 or no
  unit is left.  \<open>scaled_bytes\<close> is the magnitude to display and its unit.
\<close>

fun scale_units :: "string \<Rightarrow> string list \<Rightarrow> rat \<Rightarrow> rat \<times> string" where
  "scale_units unit [] q = (q, unit)"
| "scale_units unit (next_unit # units) q =
     (if q < 1024 then (q, unit) else scale_units next_unit units (q / 1024))"

definition scaled_bytes :: "int \<Rightarrow> rat \<times> string" where
  "scaled_bytes n = scale_units ''B'' [''KiB'', ''MiB'', ''GiB'', ''TiB''] (of_int n)"

section \<open>streamlit_app.py: the dataset\<close>

text \<open>
  A parsed dataset: named columns, each with its inferred type and one cell per row,
  \<open>None\<close> for a missing cell.  \<open>index_len\<close> is the number of rows, \<open>len(df)\<close>.
\<close>

datatype dtype = Int64 | Float64 | Bool | Object | Category | Datetime64

datatype cell = IntCell int | FloatCell rat | BoolCell bool | StrCell string

record Series =
  name :: string
  dtype :: dtype
  cells :: "cell option list"

record DataFrame =
  index_len :: nat
  series :: "Series list"

text \<open>What the parser guarantees of a dataset: every column has one cell per row, and
  the column labels are unique.\<close>

definition wf_DataFrame :: "DataFrame \<Rightarrow> bool" where
  "wf_DataFrame df \<longleftrightarrow>
     list_all (\<lambda>s. length (cells s) = index_len df) (series df) \<and> distinct (map name (series df))"

definition len :: "DataFrame \<Rightarrow> int" where
  "len df = int (index_len df)"

definition dtype_str :: "dtype \<Rightarrow> string" where
  "dtype_str t = (case t of Int64 \<Rightarrow> ''int64'' | Float64 \<Rightarrow> ''float64'' | Bool \<Rightarrow> ''bool''
     | Object \<Rightarrow> ''object'' | Category \<Rightarrow> ''category'' | Datetime64 \<Rightarrow> ''datetime64[ns]'')"

text \<open>The dataset of the specification's example: a numeric column \<open>num\<close> with the cells
  1, 2 and a missing cell, and a text column \<open>cat\<close> with the cells a, a, b.\<close>

definition example_df :: DataFrame where
  "example_df = \<lparr>index_len = 3, series =
     [\<lparr>name = ''num'', dtype = Float64, cells = [Some (FloatCell 1), Some (FloatCell 2), None]\<rparr>,
      \<lparr>name = ''cat'', dtype = Object,
        cells = [Some (StrCell ''a''), Some (StrCell ''a''), Some (StrCell ''b'')]\<rparr>]\<rparr>"

section \<open>streamlit_app.py: the loader (lines 23-32)\<close>

text \<open>
  \<open>pd.read_csv\<close> is the parsing library's: it is a parameter of the model, a function of
  the decoding mode and the uploaded file that returns the dataset or the exception
  raised, and the file with its new read position.
\<close>

datatype encoding_errors = Strict | Ignore

record UploadedFile =
  content :: string
  position :: nat

type_synonym csv_reader = "encoding_errors \<Rightarrow> UploadedFile \<Rightarrow> (py_error + DataFrame) \<times> UploadedFile"

definition seek :: "UploadedFile \<Rightarrow> nat \<Rightarrow> UploadedFile" where
  "seek f p = f\<lparr>position := p\<rparr>"

definition str_exc :: "py_error \<Rightarrow> string" where
  "str_exc e = (case e of ParserError m \<Rightarrow> m | EmptyDataError m \<Rightarrow> m | IndexError \<Rightarrow> ''IndexError''
     | KeyError \<Rightarrow> ''KeyError'' | OverflowError \<Rightarrow> ''OverflowError''
     | UnicodeDecodeError \<Rightarrow> ''UnicodeDecodeError'')"

text \<open>
  How the \<open>try\<close> statement ends: \<open>Loaded\<close>, the script goes on with the dataset;
  \<open>Halted\<close>, \<open>st.error\<close> has shown the message and \<open>st.stop()\<close> has ended the run;
  \<open>Uncaught\<close>, an exception has left the \<open>try\<close> statement.  An exception raised inside
  the handler of \<open>UnicodeDecodeError\<close> is not seen by the handler of \<open>Exception\<close> that
  follows it.
\<close>

datatype load_result = Loaded DataFrame | Halted string | Uncaught py_error

definition load_csv :: "csv_reader \<Rightarrow> UploadedFile \<Rightarrow> load_result" where
  "load_csv read_csv uploaded_file =
     (case read_csv Strict uploaded_file of
        (Inr df, _) \<Rightarrow> Loaded df
      | (Inl UnicodeDecodeError, f1) \<Rightarrow>
          (case read_csv Ignore (seek f1 0) of
             (Inr df, _) \<Rightarrow> Loaded df
           | (Inl e, _) \<Rightarrow> Uncaught e)
      | (Inl exc, _) \<Rightarrow> Halted (''Could not read the CSV: '' @ str_exc exc))"

section \<open>streamlit_app.py: the preview (lines 47-48)\<close>

text \<open>The arguments of \<open>st.slider\<close>; \<open>default_value\<close> is the argument \<open>value\<close>.\<close>

record slider_args =
  min_value :: int
  max_value :: int
  default_value :: int

definition rows_to_show_slider :: "DataFrame \<Rightarrow> slider_args" where
  "rows_to_show_slider df =
     \<lparr>min_value = 5, max_value = min 1000 (max 5 (len df)), default_value = min 50 (len df)\<rparr>"

text \<open>
  \<open>st.slider\<close> is the library's, not this repository's.  It keeps
  \<open>min_value \<le> value \<le> max_value\<close> by adjusting the bounds it is given: the lower bound
  becomes the least and the upper bound the greatest of the bounds and the value.
  \<open>st_slider\<close> is the slider as created, \<open>selectable\<close> the sizes it offers; the size it
  shows first is its \<open>default_value\<close>.
\<close>

definition st_slider :: "slider_args \<Rightarrow> slider_args" where
  "st_slider a =
     (let lo = min (min_value a) (max_value a);
          hi = max lo (max_value a)
      in \<lparr>min_value = min (default_value a) lo, max_value = max (default_value a) hi,
          default_value = default_value a\<rparr>)"

definition selectable :: "slider_args \<Rightarrow> int set" where
  "selectable a = {min_value (st_slider a) .. max_value (st_slider a)}"

section \<open>streamlit_app.py: the schema report (lines 52-62)\<close>

text \<open>
  The numbers of a float column.  The percentages are modelled by the exact rationals;
  division by zero gives the values the array library gives, \<open>NaN\<close> for \<open>0 / 0\<close> and an
  infinity otherwise.
\<close>

datatype float64 = Finite rat | PosInf | NegInf | NaN

text \<open>\<open>df.isna().sum()\<close>: the number of missing cells of each column.\<close>

definition isna_sum :: "DataFrame \<Rightarrow> int list" where
  "isna_sum df = map (\<lambda>s. int (length (filter (\<lambda>c. c = None) (cells s)))) (series df)"

definition truediv :: "int \<Rightarrow> int \<Rightarrow> float64" where
  "truediv a b =
     (if b \<noteq> 0 then Finite (of_int a / of_int b)
      else if a = 0 then NaN else if 0 < a then PosInf else NegInf)"

definition fillna0 :: "float64 \<Rightarrow> float64" where
  "fillna0 v = (case v of NaN \<Rightarrow> Finite 0 | _ \<Rightarrow> v)"

definition times100 :: "float64 \<Rightarrow> float64" where
  "times100 v = (case v of Finite q \<Rightarrow> Finite (q * 100) | _ \<Rightarrow> v)"

definition round2 :: "float64 \<Rightarrow> float64" where
  "round2 v = (case v of Finite q \<Rightarrow> Finite (of_int (round_half_even (q * 100)) / 100) | _ \<Rightarrow> v)"

text \<open>Line 53, with its guard \<open>if len(df) else missing_counts * 0\<close>.\<close>

definition missing_pct :: "DataFrame \<Rightarrow> float64 list" where
  "missing_pct df =
     (if len df \<noteq> 0 then map (\<lambda>m. times100 (fillna0 (truediv m (len df)))) (isna_sum df)
      else map (\<lambda>m. Finite (of_int (m * 0))) (isna_sum df))"

record schema_row =
  column :: string
  dtype_name :: string
  missing :: int
  missing_percent :: float64

definition schema_df :: "DataFrame \<Rightarrow> schema_row list" where
  "schema_df df =
     map (\<lambda>(s, m, p). \<lparr>column = name s, dtype_name = dtype_str (dtype s), missing = m,
                        missing_percent = round2 p\<rparr>)
       (zip (series df) (zip (isna_sum df) (missing_pct df)))"

text \<open>
  \<open>sort_values(["missing_%", "column"], ascending=[False, True])\<close>: a stable sort by the
  percentage, larger first and \<open>NaN\<close> last, then by the column label.
\<close>

definition descending_rank :: "float64 \<Rightarrow> nat \<times> rat" where
  "descending_rank v =
     (case v of PosInf \<Rightarrow> (0, 0) | Finite q \<Rightarrow> (1, - q) | NegInf \<Rightarrow> (2, 0) | NaN \<Rightarrow> (3, 0))"

definition sort_values :: "schema_row list \<Rightarrow> schema_row list" where
  "sort_values rows = sort_key (\<lambda>r. (descending_rank (missing_percent r), column r)) rows"

definition schema_report :: "DataFrame \<Rightarrow> schema_row list" where
  "schema_report df = sort_values (schema_df df)"

section \<open>streamlit_app.py: the top values (lines 66, 82-92)\<close>

definition cat_cols :: "DataFrame \<Rightarrow> string list" where
  "cat_cols df = map name (filter (\<lambda>s. dtype s \<in> {Object, Category, Bool}) (series df))"

text \<open>\<open>df[col_name]\<close>: the column of that label.\<close>

definition df_getitem :: "DataFrame \<Rightarrow> string \<Rightarrow> py_error + Series" where
  "df_getitem df col_name =
     (case filter (\<lambda>s. name s = col_name) (series df) of [] \<Rightarrow> Inl KeyError | s # _ \<Rightarrow> Inr s)"

text \<open>
  \<open>value_counts(dropna=False)\<close>: every distinct cell, the missing cell among them, with
  the number of its occurrences, the most frequent first.  The distinct cells are taken in
  the order of their first occurrence and sorted stably; the order of cells of equal
  count is the library's and no property below depends on it.
\<close>

definition unique :: "'a list \<Rightarrow> 'a list" where
  "unique vs = rev (remdups (rev vs))"

definition value_counts :: "'a list \<Rightarrow> ('a \<times> nat) list" where
  "value_counts vs = sort_key (\<lambda>(v, c). - int c) (map (\<lambda>v. (v, count_list vs v)) (unique vs))"

text \<open>\<open>st.columns(n)\<close>: the display slots, numbered from 0.\<close>

definition st_columns :: "int \<Rightarrow> nat list" where
  "st_columns n = [0 ..< nat n]"

text \<open>The loop of lines 86-92 over \<open>enumerate(cat_cols)\<close>: each round shows, in a slot,
  the column label and the table \<open>vc_df\<close>.\<close>

fun top_values_loop ::
  "DataFrame \<Rightarrow> nat list \<Rightarrow> (int \<times> string) list
    \<Rightarrow> py_error + (nat \<times> string \<times> (cell option \<times> nat) list) list"
where
  "top_values_loop df columns [] = Inr []"
| "top_values_loop df columns ((idx, col_name) # rest) =
     (case getitem columns (idx mod 3) of Inl e \<Rightarrow> Inl e | Inr slot \<Rightarrow>
      case df_getitem df col_name of Inl e \<Rightarrow> Inl e | Inr s \<Rightarrow>
      case top_values_loop df columns rest of Inl e \<Rightarrow> Inl e | Inr shown \<Rightarrow>
        Inr ((slot, col_name, take 10 (value_counts (cells s))) # shown))"

definition enumerate_list :: "'a list \<Rightarrow> (int \<times> 'a) list" where
  "enumerate_list vs = zip (map int [0 ..< length vs]) vs"

definition top_values ::
  "DataFrame \<Rightarrow> py_error + (nat \<times> string \<times> (cell option \<times> nat) list) list" where
  "top_values df =
     (if 0 < length (cat_cols df)
      then top_values_loop df (st_columns (min 3 (int (length (cat_cols df)))))
             (enumerate_list (cat_cols df))
      else Inr [])"

text \<open>
  The table the specification describes for a column with the cells \<open>vs\<close>, written from its
  words and independent of \<open>value_counts\<close>: one row per distinct cell, the missing cell
  among them, at most ten rows and all of them when there are fewer distinct cells; each
  row carries the number of occurrences of its cell; no cell left out occurs more often
  than a listed one; the rows are in descending order of count.
\<close>

definition is_top_values_table :: "'a list \<Rightarrow> ('a \<times> nat) list \<Rightarrow> bool" where
  "is_top_values_table vs t \<longleftrightarrow>
     length t = min 10 (card (set vs))
   \<and> distinct (map fst t)
   \<and> (\<forall>(v, c) \<in> set t. v \<in> set vs \<and> c = count_list vs v)
   \<and> (\<forall>(v, c) \<in> set t. \<forall>w \<in> set vs. w \<notin> fst ` set t \<longrightarrow> count_list vs w \<le> c)
   \<and> sorted_wrt (\<lambda>a b. snd b \<le> snd a) t"

section \<open>Properties of the finger-state classifier\<close>

lemma getitem_in_range:
  "0 \<le> i \<Longrightarrow> i < int (length xs) \<Longrightarrow> getitem xs i = Inr (xs ! nat i)"
  by (simp add: getitem_def)

lemma thumb_state_21:
  assumes "length (landmark h) = 21"
  shows "thumb_state h = Inr [if x (landmark h ! 4) < x (landmark h ! 3) then 1 else 0]"
  using assms by (simp add: thumb_state_def tip_ids_def getitem_in_range)

lemma finger_states_21:
  assumes "length (landmark h) = 21"
  shows "finger_states h = Inr
     [if x (landmark h ! 4) < x (landmark h ! 3) then 1 else 0,
      if y (landmark h ! 8) < y (landmark h ! 6) then 1 else 0,
      if y (landmark h ! 12) < y (landmark h ! 10) then 1 else 0,
      if y (landmark h ! 16) < y (landmark h ! 14) then 1 else 0,
      if y (landmark h ! 20) < y (landmark h ! 18) then 1 else 0]"
  using assms
  by (simp add: finger_states_def thumb_state_21 tip_ids_def getitem_in_range)

text \<open>
  Claim C3.  For a hand observation of 21 landmarks the list \<open>fingers\<close> built by
  \<open>count_fingers\<close> has exactly five entries, every entry is 0 or 1, and the returned
  count is the sum of the list and lies between 0 and 5; no exception is raised.
\<close>

theorem finger_vector_invariant:
  assumes "length (landmark h) = 21"
  shows "\<exists>fingers. finger_states h = Inr fingers \<and> length fingers = 5
           \<and> (\<forall>b \<in> set fingers. b = 0 \<or> b = 1)
           \<and> count_fingers h = Inr (sum_list fingers)
           \<and> 0 \<le> sum_list fingers \<and> sum_list fingers \<le> 5"
  by (simp add: count_fingers_def finger_states_21 [OF assms])

theorem finger_vector_invariant_witness:
  "length (landmark \<lparr>landmark = replicate 21 \<lparr>x = 0, y = 0, z = 0\<rparr>\<rparr>) = 21
   \<and> (\<exists>fingers. finger_states \<lparr>landmark = replicate 21 \<lparr>x = 0, y = 0, z = 0\<rparr>\<rparr> = Inr fingers
         \<and> length fingers = 5 \<and> set fingers \<subseteq> {0, 1}
         \<and> count_fingers \<lparr>landmark = replicate 21 \<lparr>x = 0, y = 0, z = 0\<rparr>\<rparr> = Inr (sum_list fingers)
         \<and> 0 \<le> sum_list fingers \<and> sum_list fingers \<le> 5)"
  using finger_vector_invariant [of "\<lparr>landmark = replicate 21 \<lparr>x = 0, y = 0, z = 0\<rparr>\<rparr>"]
  by auto

text \<open>
  Claim C4.  For a hand observation of 21 landmarks: the thumb entry is 1 exactly when
  the x-coordinate of landmark 4 is less than that of landmark 3; the entries of the
  other four fingers (tips 8, 12, 16, 20) are 1 exactly when the tip's y-coordinate is
  less than the y-coordinate of the landmark two positions before it; every entry is
  otherwise 0; the function returns the sum of the five entries; and the parity label
  of that count is "Even" when the count is 0 modulo 2 and "Odd" otherwise.
\<close>

theorem count_fingers_classification:
  assumes "length (landmark h) = 21"
  shows "\<exists>thumb index middle ring pinky.
           finger_states h = Inr [thumb, index, middle, ring, pinky]
         \<and> thumb = (if x (landmark h ! 4) < x (landmark h ! 3) then 1 else 0)
         \<and> index = (if y (landmark h ! 8) < y (landmark h ! 6) then 1 else 0)
         \<and> middle = (if y (landmark h ! 12) < y (landmark h ! 10) then 1 else 0)
         \<and> ring = (if y (landmark h ! 16) < y (landmark h ! 14) then 1 else 0)
         \<and> pinky = (if y (landmark h ! 20) < y (landmark h ! 18) then 1 else 0)
         \<and> count_fingers h = Inr (thumb + index + middle + ring + pinky)
         \<and> parity (thumb + index + middle + ring + pinky) =
              (if (thumb + index + middle + ring + pinky) mod 2 = 0 then ''Even'' else ''Odd'')"
  by (simp add: count_fingers_def finger_states_21 [OF assms] parity_def)

text \<open>A hand whose landmark \<open>i\<close> lies at \<open>(i, -i)\<close>: the thumb is folded, the other
  four fingers are extended, the count is 4 and the label "Even".\<close>

theorem count_fingers_classification_witness:
  "length (landmark \<lparr>landmark = map (\<lambda>i. \<lparr>x = real i, y = - real i, z = 0\<rparr>) [0..<21]\<rparr>) = 21
   \<and> finger_states \<lparr>landmark = map (\<lambda>i. \<lparr>x = real i, y = - real i, z = 0\<rparr>) [0..<21]\<rparr>
       = Inr [0, 1, 1, 1, 1]
   \<and> count_fingers \<lparr>landmark = map (\<lambda>i. \<lparr>x = real i, y = - real i, z = 0\<rparr>) [0..<21]\<rparr>
       = Inr 4
   \<and> parity 4 = ''Even''"
  using count_fingers_classification
    [of "\<lparr>landmark = map (\<lambda>i. \<lparr>x = real i, y = - real i, z = 0\<rparr>) [0..<21]\<rparr>"]
  by (auto simp: parity_def)

text \<open>
  Claim C9.  The count depends only on the x-coordinates of landmarks 3 and 4 and the
  y-coordinates of landmarks 6, 8, 10, 12, 14, 16, 18 and 20: two hand observations of
  21 landmarks that agree on these ten coordinates get the same result, whatever their
  other coordinates are.
\<close>

theorem count_fingers_ten_coordinates:
  assumes "length (landmark h1) = 21" and "length (landmark h2) = 21"
    and "x (landmark h1 ! 3) = x (landmark h2 ! 3)"
    and "x (landmark h1 ! 4) = x (landmark h2 ! 4)"
    and "\<forall>i \<in> {6, 8, 10, 12, 14, 16, 18, 20}. y (landmark h1 ! i) = y (landmark h2 ! i)"
  shows "count_fingers h1 = count_fingers h2"
  using assms(3-5)
  by (simp add: count_fingers_def finger_states_21 [OF assms(1)] finger_states_21 [OF assms(2)])

text \<open>Two hands that differ in landmarks 0 and 7 and in the z-coordinate and the
  y-coordinate of landmark 3, and agree on the ten coordinates read.\<close>

theorem count_fingers_ten_coordinates_witness:
  "count_fingers \<lparr>landmark = replicate 21 \<lparr>x = 0, y = 0, z = 0\<rparr>\<rparr>
     = count_fingers \<lparr>landmark = (replicate 21 \<lparr>x = 0, y = 0, z = 0\<rparr>)
         [0 := \<lparr>x = 5, y = 7, z = 1\<rparr>, 7 := \<lparr>x = 2, y = 9, z = 3\<rparr>, 3 := \<lparr>x = 0, y = 4, z = 6\<rparr>]\<rparr>
   \<and> \<lparr>landmark = replicate 21 \<lparr>x = 0, y = 0, z = 0\<rparr>\<rparr>
     \<noteq> \<lparr>landmark = (replicate 21 \<lparr>x = 0, y = 0, z = 0\<rparr>)
         [0 := \<lparr>x = 5, y = 7, z = 1\<rparr>, 7 := \<lparr>x = 2, y = 9, z = 3\<rparr>, 3 := \<lparr>x = 0, y = 4, z = 6\<rparr>]\<rparr>"
proof -
  let ?a = "\<lparr>landmark = replicate 21 \<lparr>x = 0, y = 0, z = 0\<rparr>\<rparr>"
  let ?b = "\<lparr>landmark = (replicate 21 \<lparr>x = 0, y = 0, z = 0\<rparr>)
         [0 := \<lparr>x = 5, y = 7, z = 1\<rparr>, 7 := \<lparr>x = 2, y = 9, z = 3\<rparr>, 3 := \<lparr>x = 0, y = 4, z = 6\<rparr>]\<rparr>"
  have "count_fingers ?a = count_fingers ?b"
    by (rule count_fingers_ten_coordinates) simp_all
  moreover have "?a \<noteq> ?b"
  proof
    assume eq: "?a = ?b"
    show False
      using arg_cong [OF eq, of "\<lambda>h. x (landmark h ! 0)"] by simp
  qed
  ultimately show ?thesis
    by (rule conjI)
qed


section \<open>Properties of the preview slider\<close>

lemma Max_int_interval: "a \<le> b \<Longrightarrow> Max {a .. b :: int} = b"
  by (rule Max_eqI) simp_all

lemma selectable_rows_to_show:
  "selectable (rows_to_show_slider df)
     = {min 5 (int (index_len df)) .. min 1000 (max 5 (int (index_len df)))}"
  by (simp add: selectable_def st_slider_def rows_to_show_slider_def len_def Let_def min_def max_def)

lemma default_below_minimum:
  "index_len df < 5 \<Longrightarrow>
     default_value (rows_to_show_slider df) < min_value (rows_to_show_slider df)"
  by (simp add: rows_to_show_slider_def len_def)

text \<open>
  Claim C7.  The slider of the preview size is created with the lower bound 5, the upper
  bound min(1000, max(5, row_count)) and the default min(50, row_count); the upper bound
  is never below 5, and it is 5 for a dataset with 3 rows.  With 5 rows or more the sizes
  offered are the interval [5, min(1000, row_count)] and the default is one of them.  With
  fewer than 5 rows the default is row_count, below the lower bound 5: the slider then
  offers the interval [row_count, 5] and shows row_count first, so the preview size is
  not confined to [5, 5].
\<close>

theorem preview_slider_range:
  "min_value (rows_to_show_slider df) = 5
   \<and> max_value (rows_to_show_slider df) = min 1000 (max 5 (int (index_len df)))
   \<and> default_value (rows_to_show_slider df) = min 50 (int (index_len df))
   \<and> 5 \<le> max_value (rows_to_show_slider df)
   \<and> default_value (rows_to_show_slider df) \<in> selectable (rows_to_show_slider df)
   \<and> Max (selectable (rows_to_show_slider df)) = min 1000 (max 5 (int (index_len df)))
   \<and> (5 \<le> index_len df \<longrightarrow>
         selectable (rows_to_show_slider df) = {5 .. min 1000 (int (index_len df))})
   \<and> (index_len df < 5 \<longrightarrow>
         selectable (rows_to_show_slider df) = {int (index_len df) .. 5}
       \<and> default_value (rows_to_show_slider df) = int (index_len df)
       \<and> default_value (rows_to_show_slider df) \<notin> {5 .. min 1000 (max 5 (int (index_len df)))})
   \<and> (index_len df = 3 \<longrightarrow> Max (selectable (rows_to_show_slider df)) = 5)"
proof -
  let ?n = "int (index_len df)"
  let ?s = "rows_to_show_slider df"
  have args: "min_value ?s = 5" "max_value ?s = min 1000 (max 5 ?n)" "default_value ?s = min 50 ?n"
    by (simp_all add: rows_to_show_slider_def len_def)
  have sel: "selectable ?s = {min 5 ?n .. min 1000 (max 5 ?n)}"
    by (rule selectable_rows_to_show)
  have up: "5 \<le> max_value ?s"
    by (simp add: args)
  have dflt: "default_value ?s \<in> selectable ?s"
    unfolding sel args by auto
  have "min 5 ?n \<le> min 1000 (max 5 ?n)"
    by (simp add: min_def max_def)
  then have top: "Max (selectable ?s) = min 1000 (max 5 ?n)"
    unfolding sel by (rule Max_int_interval)
  have many: "selectable ?s = {5 .. min 1000 ?n}" if "5 \<le> index_len df"
    using that unfolding sel by (simp add: min_def max_def)
  have few: "selectable ?s = {?n .. 5} \<and> default_value ?s = ?n
       \<and> default_value ?s \<notin> {5 .. min 1000 (max 5 ?n)}" if "index_len df < 5"
    using that unfolding sel args by (simp add: min_def max_def)
  have three: "Max (selectable ?s) = 5" if "index_len df = 3"
    using that unfolding top by simp
  show ?thesis
    using args up dflt top many few three by blast
qed

text \<open>A dataset of 7 rows, with the sizes 5 to 7, and the dataset of the example, which
  has 3 rows.\<close>

theorem preview_slider_range_witness:
  "selectable (rows_to_show_slider \<lparr>index_len = 7, series = []\<rparr>) = {5 .. 7}
   \<and> selectable (rows_to_show_slider example_df) = {3 .. 5}
   \<and> default_value (rows_to_show_slider example_df) = 3
   \<and> Max (selectable (rows_to_show_slider example_df)) = 5"
proof -
  have "index_len example_df = 3"
    by (simp add: example_df_def)
  then show ?thesis
    using preview_slider_range [of "\<lparr>index_len = 7, series = []\<rparr>"]
      preview_slider_range [of example_df]
    by (simp add: Max_int_interval)
qed

text \<open>A parsed dataset with 3 rows: the slider offers the size 3, and shows it first, but
  3 is not in the interval [5, min(1000, max(5, 3))].\<close>

theorem preview_slider_three_rows:
  "wf_DataFrame example_df \<and> index_len example_df = 3
   \<and> default_value (rows_to_show_slider example_df) = 3
   \<and> 3 \<in> selectable (rows_to_show_slider example_df)
   \<and> 3 \<notin> {5 .. min 1000 (max 5 (int (index_len example_df)))}"
  by (simp add: wf_DataFrame_def example_df_def selectable_def st_slider_def
        rows_to_show_slider_def len_def)

section \<open>Properties of the schema report\<close>

lemma round_half_even_near: "\<bar>of_int (round_half_even q) - q\<bar> \<le> 1 / 2"
proof -
  have a: "of_int \<lfloor>q\<rfloor> \<le> q" and b: "q < of_int \<lfloor>q\<rfloor> + 1"
    using floor_correct [of q] by simp_all
  show ?thesis
    using a b unfolding round_half_even_def Let_def
    by (auto simp: abs_le_iff)
qed

lemma count_list_None: "count_list vs None = length (filter (\<lambda>c. c = None) vs)"
  by (induction vs) auto

lemma length_isna_sum [simp]: "length (isna_sum df) = length (series df)"
  by (simp add: isna_sum_def)

lemma length_missing_pct [simp]: "length (missing_pct df) = length (series df)"
  by (simp add: missing_pct_def)

lemma length_schema_df [simp]: "length (schema_df df) = length (series df)"
  by (simp add: schema_df_def)

lemma isna_sum_nth:
  "i < length (series df) \<Longrightarrow> isna_sum df ! i = int (count_list (cells (series df ! i)) None)"
  by (simp add: isna_sum_def count_list_None)

lemma missing_pct_nth:
  assumes "i < length (series df)"
  shows "missing_pct df ! i =
    (if index_len df = 0 then Finite 0
     else Finite (of_int (isna_sum df ! i) / of_int (int (index_len df)) * 100))"
  using assms
  by (simp add: missing_pct_def len_def truediv_def fillna0_def times100_def)

lemma schema_df_nth:
  assumes "i < length (series df)"
  shows "schema_df df ! i =
     \<lparr>column = name (series df ! i), dtype_name = dtype_str (dtype (series df ! i)),
      missing = isna_sum df ! i, missing_percent = round2 (missing_pct df ! i)\<rparr>"
  using assms by (simp add: schema_df_def)

lemma round2_Finite:
  "\<exists>k. round2 (Finite q) = Finite (of_int k / 100) \<and> \<bar>of_int k / 100 - q\<bar> \<le> 1 / 200
       \<and> (q = 0 \<longrightarrow> k = 0)"
proof -
  let ?k = "round_half_even (q * 100)"
  have "\<bar>of_int ?k - q * 100\<bar> \<le> 1 / 2"
    by (rule round_half_even_near)
  then have "\<bar>of_int ?k / 100 - q\<bar> \<le> 1 / 200"
    by (simp add: abs_le_iff field_simps)
  moreover have "q = 0 \<longrightarrow> ?k = 0"
    by (simp add: round_half_even_def)
  ultimately show ?thesis
    by (auto simp: round2_def)
qed

lemma schema_df_row:
  assumes i: "i < length (series df)"
  shows "column (schema_df df ! i) = name (series df ! i)
       \<and> dtype_name (schema_df df ! i) = dtype_str (dtype (series df ! i))
       \<and> missing (schema_df df ! i) = int (count_list (cells (series df ! i)) None)
       \<and> (\<exists>k. missing_percent (schema_df df ! i) = Finite (of_int k / 100)
             \<and> (index_len df = 0 \<longrightarrow> k = 0)
             \<and> (0 < index_len df \<longrightarrow>
                  \<bar>of_int k / 100
                     - 100 * of_int (missing (schema_df df ! i)) / of_int (int (index_len df))\<bar>
                  \<le> (1 / 200 :: rat)))"
proof (cases "index_len df = 0")
  case True
  obtain k where "round2 (Finite 0) = Finite (of_int k / 100)" "k = 0"
    using round2_Finite [of 0] by auto
  then show ?thesis
    using True i by (simp add: schema_df_nth isna_sum_nth missing_pct_nth)
next
  case False
  let ?q = "of_int (isna_sum df ! i) / of_int (int (index_len df)) * 100 :: rat"
  obtain k where k: "round2 (Finite ?q) = Finite (of_int k / 100)"
      "\<bar>of_int k / 100 - ?q\<bar> \<le> 1 / 200"
    using round2_Finite [of ?q] by auto
  have "missing_percent (schema_df df ! i) = Finite (of_int k / 100)"
    using False i k(1) by (simp add: schema_df_nth missing_pct_nth)
  moreover have "\<bar>of_int k / 100
        - 100 * of_int (missing (schema_df df ! i)) / of_int (int (index_len df))\<bar> \<le> (1 / 200 :: rat)"
    using k(2) i by (simp add: schema_df_nth mult.commute)
  ultimately show ?thesis
    using False i by (auto simp: schema_df_nth isna_sum_nth)
qed

lemma schema_df_Finite:
  assumes "r \<in> set (schema_df df)"
  shows "\<exists>q. missing_percent r = Finite q"
proof -
  obtain i where "i < length (series df)" "r = schema_df df ! i"
    using assms by (auto simp: in_set_conv_nth)
  then show ?thesis
    using schema_df_row [of i df] by auto
qed

lemma sort_values_mset: "mset (sort_values rows) = mset rows"
  by (simp add: sort_values_def)

lemma sort_values_sorted:
  assumes "\<forall>r \<in> set rows. \<exists>q. missing_percent r = Finite q"
  shows "sorted_wrt (\<lambda>r s. \<exists>a b. missing_percent r = Finite a \<and> missing_percent s = Finite b
            \<and> (b < a \<or> (a = b \<and> column r \<le> column s))) (sort_values rows)"
proof -
  let ?key = "\<lambda>r. (descending_rank (missing_percent r), column r)"
  have "sorted (map ?key (sort_values rows))"
    by (simp add: sort_values_def)
  then have sw: "sorted_wrt (\<lambda>r s. ?key r \<le> ?key s) (sort_values rows)"
    by (simp add: sorted_map)
  have fin: "\<forall>r \<in> set (sort_values rows). \<exists>q. missing_percent r = Finite q"
    using assms by (simp add: sort_values_def)
  show ?thesis
  proof (rule sorted_wrt_mono_rel [OF _ sw])
    fix r s
    assume r: "r \<in> set (sort_values rows)" and s: "s \<in> set (sort_values rows)"
      and le: "?key r \<le> ?key s"
    obtain a b where ab: "missing_percent r = Finite a" "missing_percent s = Finite b"
      using fin r s by blast
    have "b < a \<or> (a = b \<and> column r \<le> column s)"
      using le ab by (auto simp: descending_rank_def less_eq_prod_def)
    then show "\<exists>a b. missing_percent r = Finite a \<and> missing_percent s = Finite b
            \<and> (b < a \<or> (a = b \<and> column r \<le> column s))"
      using ab by blast
  qed
qed


lemma map_const_replicate:
  "\<forall>r \<in> set rows. f r = c \<Longrightarrow> map f rows = replicate (length rows) c"
  by (induction rows) auto

lemma missing_pct_Finite: "v \<in> set (missing_pct df) \<Longrightarrow> \<exists>q. v = Finite q"
  by (auto simp: missing_pct_def truediv_def fillna0_def times100_def len_def split: if_splits)

lemma missing_pct_zero_rows:
  "index_len df = 0 \<Longrightarrow> missing_pct df = replicate (length (series df)) (Finite 0)"
  by (simp add: missing_pct_def len_def isna_sum_def map_replicate_const)

lemma schema_report_zero_rows:
  assumes "index_len df = 0"
  shows "map missing_percent (schema_report df) = replicate (length (series df)) (Finite 0)"
proof -
  have "\<forall>r \<in> set (schema_df df). missing_percent r = Finite 0"
  proof
    fix r assume "r \<in> set (schema_df df)"
    then obtain i where i: "i < length (series df)" "r = schema_df df ! i"
      by (auto simp: in_set_conv_nth)
    show "missing_percent r = Finite 0"
      using schema_df_row [OF i(1)] assms i(2) by auto
  qed
  then have "\<forall>r \<in> set (schema_report df). missing_percent r = Finite 0"
    by (simp add: schema_report_def sort_values_def)
  then have "map missing_percent (schema_report df)
      = replicate (length (schema_report df)) (Finite 0)"
    by (rule map_const_replicate)
  then show ?thesis
    by (simp add: schema_report_def sort_values_def)
qed

text \<open>
  Claim C5.  Every missing-value percentage is a finite number, whatever the dataset: the
  division by the row count is made only where the row count is not zero, so the values
  a division by zero gives (NaN, the infinities) never occur.  For a dataset with 0 rows
  the percentage is 0 for every column, in the computed column and in the schema report.
\<close>

theorem missing_percent_zero_rows:
  "(\<forall>v \<in> set (missing_pct df). \<exists>q. v = Finite q)
   \<and> (index_len df = 0 \<longrightarrow>
        missing_pct df = replicate (length (series df)) (Finite 0)
      \<and> map missing_percent (schema_report df) = replicate (length (series df)) (Finite 0))"
  using missing_pct_Finite [of _ df] missing_pct_zero_rows [of df] schema_report_zero_rows [of df]
  by blast

theorem missing_percent_zero_rows_witness:
  "index_len \<lparr>index_len = 0, series = [\<lparr>name = ''a'', dtype = Object, cells = []\<rparr>,
       \<lparr>name = ''b'', dtype = Int64, cells = []\<rparr>]\<rparr> = 0
   \<and> map missing_percent (schema_report \<lparr>index_len = 0, series =
       [\<lparr>name = ''a'', dtype = Object, cells = []\<rparr>, \<lparr>name = ''b'', dtype = Int64, cells = []\<rparr>]\<rparr>)
     = [Finite 0, Finite 0]"
  using missing_percent_zero_rows [of "\<lparr>index_len = 0, series =
       [\<lparr>name = ''a'', dtype = Object, cells = []\<rparr>, \<lparr>name = ''b'', dtype = Int64, cells = []\<rparr>]\<rparr>"]
  by simp



section \<open>Properties of the loader\<close>

lemma load_csv_first_attempt_ok:
  "read_csv Strict f = (Inr df, f1) \<Longrightarrow> load_csv read_csv f = Loaded df"
  by (simp add: load_csv_def)

lemma load_csv_retry_ok:
  "read_csv Strict f = (Inl UnicodeDecodeError, f1) \<Longrightarrow> read_csv Ignore (seek f1 0) = (Inr df, f2)
     \<Longrightarrow> load_csv read_csv f = Loaded df"
  by (simp add: load_csv_def)

lemma load_csv_other_exception:
  "read_csv Strict f = (Inl e, f1) \<Longrightarrow> e \<noteq> UnicodeDecodeError
     \<Longrightarrow> load_csv read_csv f = Halted (''Could not read the CSV: '' @ str_exc e)"
  by (cases e) (simp_all add: load_csv_def)

text \<open>
  Claim C1.  The loader does not catch every exception of the parser.  When the strict
  parse raises \<open>UnicodeDecodeError\<close>, the lossy parse runs inside the handler of that
  exception; an exception it raises is not handled by the sibling \<open>except Exception\<close>
  clause, so it leaves the \<open>try\<close> statement: no error message is shown and the script is
  not halted by \<open>st.stop()\<close>.
\<close>

theorem load_csv_retry_exception_uncaught:
  assumes "read_csv Strict f = (Inl UnicodeDecodeError, f1)"
    and "read_csv Ignore (seek f1 0) = (Inl e, f2)"
  shows "load_csv read_csv f = Uncaught e"
  using assms by (simp add: load_csv_def)

text \<open>A file with an invalid byte in its header line, on which the strict parse fails,
  and a sixth line with too many fields, on which the lossy parse fails.\<close>

theorem load_csv_retry_exception_uncaught_witness:
  "load_csv
     (\<lambda>errors file. if errors = Strict
        then (Inl UnicodeDecodeError, file\<lparr>position := length (content file)\<rparr>)
        else (Inl (ParserError ''Expected 2 fields in line 6, saw 3''), file))
     \<lparr>content = ''a'' @ [CHR 0xFF]
        @ '',b\<newline>1,2\<newline>3,4\<newline>5,6\<newline>7,8\<newline>9,10,11\<newline>'',
      position = 0\<rparr>
   = Uncaught (ParserError ''Expected 2 fields in line 6, saw 3'')"
  by (rule load_csv_retry_exception_uncaught) simp_all

section \<open>Properties of the top values\<close>

lemma set_unique [simp]: "set (unique vs) = set vs"
  by (simp add: unique_def)

lemma distinct_unique [simp]: "distinct (unique vs)"
  by (simp add: unique_def)

lemma length_unique: "length (unique vs) = card (set vs)"
  using distinct_card [of "unique vs"] by simp

lemma mset_value_counts:
  "mset (value_counts vs) = mset (map (\<lambda>v. (v, count_list vs v)) (unique vs))"
  by (simp add: value_counts_def)

lemma set_value_counts: "set (value_counts vs) = (\<lambda>v. (v, count_list vs v)) ` set vs"
  by (simp add: value_counts_def)

lemma length_value_counts: "length (value_counts vs) = card (set vs)"
  by (simp add: value_counts_def length_unique)

lemma distinct_fst_value_counts: "distinct (map fst (value_counts vs))"
proof -
  have "mset (map fst (value_counts vs)) = mset (unique vs)"
    using arg_cong [OF mset_value_counts, of "image_mset fst" vs]
    by (simp add: image_mset.compositionality comp_def)
  then show ?thesis
    using distinct_unique [of vs] by (metis distinct_count_atmost_1 set_mset_mset)
qed

lemma sorted_value_counts: "sorted_wrt (\<lambda>a b. snd b \<le> snd a) (value_counts vs)"
proof -
  have "sorted (map (\<lambda>(v, c). - int c) (value_counts vs))"
    unfolding value_counts_def by (rule sorted_sort_key)
  then show ?thesis
    by (simp add: sorted_map case_prod_unfold)
qed

lemma top_values_table: "is_top_values_table vs (take 10 (value_counts vs))"
proof -
  let ?all = "value_counts vs"
  let ?t = "take 10 ?all"
  have split: "?all = ?t @ drop 10 ?all"
    by simp
  have sub: "set ?t \<subseteq> set ?all"
    by (rule set_take_subset)
  have len: "length ?t = min 10 (card (set vs))"
    by (simp add: length_value_counts min.commute)
  have dist: "distinct (map fst ?t)"
    using distinct_fst_value_counts [of vs] by (simp add: take_map [symmetric])
  have mem: "\<forall>(v, c) \<in> set ?t. v \<in> set vs \<and> c = count_list vs v"
    using sub by (auto simp: set_value_counts)
  have srt: "sorted_wrt (\<lambda>a b. snd b \<le> snd a) ?t"
    using sorted_value_counts [of vs] by (rule sorted_wrt_take)
  have most: "\<forall>(v, c) \<in> set ?t. \<forall>w \<in> set vs. w \<notin> fst ` set ?t \<longrightarrow> count_list vs w \<le> c"
  proof (clarify)
    fix v c w
    assume vc: "(v, c) \<in> set ?t" and w: "w \<in> set vs" and out: "w \<notin> fst ` set ?t"
    have "(w, count_list vs w) \<in> set ?all"
      using w by (simp add: set_value_counts)
    then have "(w, count_list vs w) \<in> set ?t \<union> set (drop 10 ?all)"
      using split by (metis set_append)
    then have "(w, count_list vs w) \<in> set (drop 10 ?all)"
      using out by force
    moreover have "sorted_wrt (\<lambda>a b. snd b \<le> snd a) (?t @ drop 10 ?all)"
      using sorted_value_counts [of vs] by simp
    then have "\<forall>a \<in> set ?t. \<forall>b \<in> set (drop 10 ?all). snd b \<le> snd a"
      unfolding sorted_wrt_append by blast
    ultimately have "snd (w, count_list vs w) \<le> snd (v, c)"
      using vc by blast
    then show "count_list vs w \<le> c"
      by simp
  qed
  show ?thesis
    unfolding is_top_values_table_def using len dist mem most srt by blast
qed


lemma filter_name_distinct:
  "distinct (map name ss) \<Longrightarrow> s \<in> set ss \<Longrightarrow> filter (\<lambda>t. name t = name s) ss = [s]"
proof (induction ss)
  case Nil
  then show ?case by simp
next
  case (Cons a ss)
  show ?case
  proof (cases "a = s")
    case True
    have "name s \<notin> name ` set ss"
      using Cons.prems True by simp
    then have "\<forall>t \<in> set ss. name t \<noteq> name s"
      by (metis imageI)
    then have "filter (\<lambda>t. name t = name s) ss = []"
      by (simp add: filter_empty_conv)
    then show ?thesis
      using True by simp
  next
    case False
    then have mem: "s \<in> set ss"
      using Cons.prems by simp
    then have "name a \<noteq> name s"
      using Cons.prems by auto
    then show ?thesis
      using Cons.IH Cons.prems mem by simp
  qed
qed

lemma df_getitem_name:
  "distinct (map name (series df)) \<Longrightarrow> s \<in> set (series df) \<Longrightarrow> df_getitem df (name s) = Inr s"
  by (simp add: df_getitem_def filter_name_distinct)

lemma getitem_slot:
  "i mod 3 < m \<Longrightarrow> getitem [0 ..< m] (int i mod 3) = Inr (i mod 3)"
proof -
  assume lt: "i mod 3 < m"
  have eq: "int i mod 3 = int (i mod 3)"
    by (simp add: zmod_int)
  show ?thesis
    unfolding eq getitem_def using lt by simp
qed

lemma slot_in_range: "i < n \<Longrightarrow> i mod 3 < min 3 (n :: nat)"
proof -
  assume "i < n"
  moreover have "i mod 3 \<le> i"
    by (rule mod_less_eq_dividend)
  moreover have "i mod 3 < 3"
    by simp
  ultimately show ?thesis
    by simp
qed

lemma top_values_loop_shown:
  assumes "distinct (map name (series df))"
  shows "set ss \<subseteq> set (series df) \<Longrightarrow> k + length ss \<le> n \<Longrightarrow>
     top_values_loop df [0 ..< min 3 n] (zip (map int [k ..< k + length ss]) (map name ss))
       = Inr (map (\<lambda>(i, s). (i mod 3, name s, take 10 (value_counts (cells s))))
               (zip [k ..< k + length ss] ss))"
proof (induction ss arbitrary: k)
  case Nil
  then show ?case by simp
next
  case (Cons s ss)
  have upt: "[k ..< k + length (s # ss)] = k # [Suc k ..< Suc k + length ss]"
    by (subst upt_rec) simp
  have slot: "getitem [0 ..< min 3 n] (int k mod 3) = Inr (k mod 3)"
    using Cons.prems by (intro getitem_slot slot_in_range) simp
  have col: "df_getitem df (name s) = Inr s"
    using assms Cons.prems by (intro df_getitem_name) simp_all
  have rest: "top_values_loop df [0 ..< min 3 n]
       (zip (map int [Suc k ..< Suc k + length ss]) (map name ss))
     = Inr (map (\<lambda>(i, s). (i mod 3, name s, take 10 (value_counts (cells s))))
               (zip [Suc k ..< Suc k + length ss] ss))"
    using Cons.prems by (intro Cons.IH) simp_all
  show ?case
    unfolding upt using slot col rest by simp
qed

lemma top_values_shown:
  assumes "wf_DataFrame df"
  shows "top_values df
     = Inr (map (\<lambda>(i, s). (i mod 3, name s, take 10 (value_counts (cells s))))
         (zip [0 ..< length (cat_cols df)]
              (filter (\<lambda>s. dtype s \<in> {Object, Category, Bool}) (series df))))"
proof -
  let ?ss = "filter (\<lambda>s. dtype s \<in> {Object, Category, Bool}) (series df)"
  have d: "distinct (map name (series df))"
    using assms by (simp add: wf_DataFrame_def)
  have len: "length (cat_cols df) = length ?ss"
    by (simp add: cat_cols_def)
  have "top_values_loop df [0 ..< min 3 (length ?ss)]
          (zip (map int [0 ..< 0 + length ?ss]) (map name ?ss))
     = Inr (map (\<lambda>(i, s). (i mod 3, name s, take 10 (value_counts (cells s))))
               (zip [0 ..< 0 + length ?ss] ?ss))"
    using d by (intro top_values_loop_shown) simp_all
  moreover have "st_columns (min 3 (int (length ?ss))) = [0 ..< min 3 (length ?ss)]"
    by (simp add: st_columns_def min_def)
  moreover have "enumerate_list (cat_cols df) = zip (map int [0 ..< 0 + length ?ss]) (map name ?ss)"
    by (simp add: enumerate_list_def cat_cols_def)
  ultimately show ?thesis
    unfolding top_values_def len by (cases "?ss") simp_all
qed



lemma top_values_table_low_cardinality:
  "card (set vs) \<le> 10 \<Longrightarrow> set (take 10 (value_counts vs)) = (\<lambda>v. (v, count_list vs v)) ` set vs"
  using length_value_counts [of vs] set_value_counts [of vs] by simp

lemma top_values_missing_category:
  "take 10 (value_counts [None, Some (StrCell ''a''), None, Some (StrCell ''b''), None])
     = [(None, 3), (Some (StrCell ''a''), 1), (Some (StrCell ''b''), 1)]"
  by code_simp


section \<open>Properties of the byte-size formatter\<close>

subsection \<open>Rounding to the nearest integer and the binary exponent\<close>

lemma round_half_even_upper: "of_int (round_half_even t) \<le> t + 1 / 2"
  using round_half_even_near [of t] by linarith

lemma round_half_even_lower: "t - 1 / 2 \<le> of_int (round_half_even t)"
  using round_half_even_near [of t] by linarith

lemma round_half_even_of_int [simp]: "round_half_even (of_int k) = k"
  by (simp add: round_half_even_def)

lemma round_half_even_ge_int: "of_int k \<le> t \<Longrightarrow> k \<le> round_half_even t"
proof -
  assume "of_int k \<le> t"
  then have "k \<le> \<lfloor>t\<rfloor>"
    by (simp add: le_floor_iff)
  moreover have "\<lfloor>t\<rfloor> \<le> round_half_even t"
    by (simp add: round_half_even_def Let_def)
  ultimately show ?thesis
    by simp
qed

lemma round_half_even_ge_even:
  assumes "even k" and "of_int k - 1 / 2 \<le> t"
  shows "k \<le> round_half_even t"
proof (cases "of_int k \<le> t")
  case True
  then show ?thesis by (rule round_half_even_ge_int)
next
  case False
  then have lt: "t < of_int k"
    by simp
  have "of_int (k - 1) \<le> t"
    using assms(2) by simp
  then have "k - 1 \<le> \<lfloor>t\<rfloor>"
    by (simp only: le_floor_iff)
  moreover have "\<lfloor>t\<rfloor> < k"
    using lt by (simp add: floor_less_iff)
  ultimately have fl: "\<lfloor>t\<rfloor> = k - 1"
    by simp
  have odd: "odd (k - 1)"
    using assms(1) by simp
  have "1 / 2 \<le> t - of_int (k - 1)"
    using assms(2) by simp
  then show ?thesis
    unfolding round_half_even_def Let_def fl using odd by auto
qed

lemma float_exponent_bounds:
  assumes "1 \<le> \<bar>q\<bar>"
  shows "0 \<le> float_exponent q" and "2 powi float_exponent q \<le> \<bar>q\<bar>"
    and "\<bar>q\<bar> < 2 powi (float_exponent q + 1)"
proof -
  let ?n = "\<lfloor>\<bar>q\<bar>\<rfloor>"
  have pos: "0 < ?n"
    using assms by (simp add: less_floor_iff)
  have e: "float_exponent q = bitlen ?n - 1"
    using assms by (simp add: float_exponent_def)
  have b1: "1 \<le> bitlen ?n"
    using pos bitlen_eq_zero_iff [of ?n] bitlen_nonneg [of ?n] by linarith
  then show nonneg: "0 \<le> float_exponent q"
    by (simp add: e)
  have lo: "2 ^ nat (bitlen ?n - 1) \<le> ?n" and hi: "?n < 2 ^ nat (bitlen ?n)"
    using bitlen_bounds [OF pos] by simp_all
  have "(2::rat) powi float_exponent q = of_int (2 ^ nat (bitlen ?n - 1))"
    using b1 by (simp add: e power_int_def)
  also have "\<dots> \<le> of_int ?n"
    using lo by (simp only: of_int_le_iff)
  also have "\<dots> \<le> \<bar>q\<bar>"
    by simp
  finally show "2 powi float_exponent q \<le> \<bar>q\<bar>" .
  have "?n + 1 \<le> 2 ^ nat (bitlen ?n)"
    using hi by simp
  then have "(of_int (?n + 1) :: rat) \<le> of_int (2 ^ nat (bitlen ?n))"
    by (simp only: of_int_le_iff)
  moreover have "\<bar>q\<bar> < of_int (?n + 1)"
    by simp linarith
  moreover have "(2::rat) powi (float_exponent q + 1) = of_int (2 ^ nat (bitlen ?n))"
    using b1 by (simp add: e power_int_def)
  ultimately show "\<bar>q\<bar> < 2 powi (float_exponent q + 1)"
    by linarith
qed

lemma powi_less_cancel: "(2::rat) powi a < 2 powi b \<Longrightarrow> a < b"
proof (rule ccontr)
  assume lt: "(2::rat) powi a < 2 powi b" and "\<not> a < b"
  then have "(2::rat) powi b \<le> 2 powi a"
    by (intro power_int_increasing) simp_all
  then show False
    using lt by simp
qed

lemma float_exponent_unique:
  assumes "0 \<le> k" and "2 powi k \<le> \<bar>q\<bar>" and "\<bar>q\<bar> < 2 powi (k + 1)"
  shows "float_exponent q = k"
proof -
  have "(1::rat) \<le> 2 powi k"
    using assms(1) by (simp add: one_le_power_int)
  then have one: "1 \<le> \<bar>q\<bar>"
    using assms(2) by simp
  note b = float_exponent_bounds [OF one]
  have "(2::rat) powi k < 2 powi (float_exponent q + 1)"
    using assms(2) b(3) by simp
  then have "k < float_exponent q + 1"
    by (rule powi_less_cancel)
  moreover have "(2::rat) powi float_exponent q < 2 powi (k + 1)"
    using assms(3) b(2) by simp
  then have "float_exponent q < k + 1"
    by (rule powi_less_cancel)
  ultimately show ?thesis
    by simp
qed

subsection \<open>Rounding to a double\<close>

lemma round_half_even_le_int: "t \<le> of_int k \<Longrightarrow> round_half_even t \<le> k"
proof (cases "t = of_int k")
  case True
  then show ?thesis by simp
next
  case False
  assume "t \<le> of_int k"
  then have "t < of_int k"
    using False by simp
  then have "\<lfloor>t\<rfloor> < k"
    by (simp add: floor_less_iff)
  moreover have "round_half_even t \<le> \<lfloor>t\<rfloor> + 1"
    by (simp add: round_half_even_def Let_def)
  ultimately show ?thesis
    by simp
qed

lemma powi_scale: "(2::rat) powi a / 2 powi (a - b) = 2 powi b"
proof -
  have "(2::rat) powi b = 2 powi (a - (a - b))"
    by simp
  also have "\<dots> = 2 powi a / 2 powi (a - b)"
    by (rule power_int_diff) simp
  finally show ?thesis
    by simp
qed

lemma round_double_mantissa:
  assumes "1 \<le> \<bar>q\<bar>"
  shows "2 ^ 52 \<le> round_half_even (\<bar>q\<bar> / 2 powi (float_exponent q - 52))"
    and "round_half_even (\<bar>q\<bar> / 2 powi (float_exponent q - 52)) \<le> 2 ^ 53"
proof -
  let ?e = "float_exponent q"
  let ?t = "\<bar>q\<bar> / 2 powi (?e - 52)"
  note b = float_exponent_bounds [OF assms]
  have pos: "(0::rat) < 2 powi (?e - 52)"
    by simp
  have "(2::rat) powi ?e / 2 powi (?e - 52) \<le> ?t"
    using b(2) pos by (simp add: divide_right_mono)
  then have "(2::rat) powi 52 \<le> ?t"
    by (simp only: powi_scale)
  then have "of_int (2 ^ 52) \<le> ?t"
    by simp
  then show "2 ^ 52 \<le> round_half_even ?t"
    by (rule round_half_even_ge_int)
  have "?t < 2 powi (?e + 1) / 2 powi (?e + 1 - 53)"
    using b(3) pos by (simp add: divide_strict_right_mono)
  then have "?t < 2 powi 53"
    by (simp only: powi_scale)
  then have "?t \<le> of_int (2 ^ 53)"
    by simp
  then show "round_half_even ?t \<le> 2 ^ 53"
    by (rule round_half_even_le_int)
qed

lemma round_double_eq:
  assumes "1 \<le> \<bar>q\<bar>"
  shows "round_double q =
     (if 2 ^ 1024 \<le> rounded_abs q then Inl OverflowError else Inr (sgn q * rounded_abs q))"
proof -
  let ?e = "float_exponent q"
  let ?m = "round_half_even (\<bar>q\<bar> / 2 powi (?e - 52))"
  have e: "0 \<le> ?e"
    using assms by (rule float_exponent_bounds)
  then have p: "max (?e - 52) (- 1074) = ?e - 52"
    by simp
  have m: "0 \<le> ?m"
    using round_double_mantissa(1) [OF assms] by (rule order_trans [rotated]) simp
  have q: "q \<noteq> 0"
    using assms by auto
  have "\<bar>sgn q * of_int ?m * 2 powi (?e - 52)\<bar> = rounded_abs q"
    using m q by (simp add: rounded_abs_def abs_mult sgn_if)
  moreover have "sgn q * of_int ?m * 2 powi (?e - 52) = sgn q * rounded_abs q"
    by (simp add: rounded_abs_def)
  ultimately show ?thesis
    unfolding round_double_def Let_def p using q by (simp only: if_False)
qed

lemma rounded_abs_ge_powi:
  assumes "1 \<le> \<bar>q\<bar>"
  shows "2 powi float_exponent q \<le> rounded_abs q"
proof -
  let ?e = "float_exponent q"
  let ?m = "round_half_even (\<bar>q\<bar> / 2 powi (?e - 52))"
  have "(of_int (2 ^ 52) :: rat) \<le> of_int ?m"
    using round_double_mantissa(1) [OF assms] by (simp only: of_int_le_iff)
  then have le: "(2::rat) powi 52 \<le> of_int ?m"
    by simp
  have "(2::rat) powi ?e = 2 powi (52 + (?e - 52))"
    by simp
  also have "\<dots> = 2 powi 52 * 2 powi (?e - 52)"
    by (rule power_int_add) simp
  also have "\<dots> \<le> of_int ?m * 2 powi (?e - 52)"
    using le by (intro mult_right_mono) simp_all
  finally show ?thesis
    unfolding rounded_abs_def .
qed

lemma rounded_abs_near:
  assumes "1 \<le> \<bar>q\<bar>"
  shows "\<bar>rounded_abs q - \<bar>q\<bar>\<bar> \<le> 2 powi (float_exponent q - 53)"
proof -
  let ?p = "float_exponent q - 52"
  let ?t = "\<bar>q\<bar> / 2 powi ?p"
  have pos: "(0::rat) < 2 powi ?p"
    by simp
  have t: "?t * 2 powi ?p = \<bar>q\<bar>"
    by simp
  have "rounded_abs q - \<bar>q\<bar> = (of_int (round_half_even ?t) - ?t) * 2 powi ?p"
    unfolding rounded_abs_def left_diff_distrib t ..
  then have "\<bar>rounded_abs q - \<bar>q\<bar>\<bar> = \<bar>of_int (round_half_even ?t) - ?t\<bar> * 2 powi ?p"
    by (simp add: abs_mult)
  also have "\<dots> \<le> 1 / 2 * 2 powi ?p"
    using round_half_even_near [of ?t] pos by (intro mult_right_mono) simp_all
  also have "\<dots> = 2 powi (?p - 1)"
    by (simp add: power_int_diff)
  finally show ?thesis
    by simp
qed

lemma float_exponent_less:
  assumes "1 \<le> \<bar>q\<bar>" and "\<bar>q\<bar> < 2 powi k"
  shows "float_exponent q < k"
proof -
  have "(2::rat) powi float_exponent q < 2 powi k"
    using float_exponent_bounds(2) [OF assms(1)] assms(2) by simp
  then show ?thesis
    by (rule powi_less_cancel)
qed

lemma float_exponent_ge:
  assumes "1 \<le> \<bar>q\<bar>" and "2 powi k \<le> \<bar>q\<bar>"
  shows "k \<le> float_exponent q"
proof -
  have "(2::rat) powi k < 2 powi (float_exponent q + 1)"
    using float_exponent_bounds(3) [OF assms(1)] assms(2) by simp
  then have "k < float_exponent q + 1"
    by (rule powi_less_cancel)
  then show ?thesis
    by simp
qed

lemma rounded_abs_no_overflow:
  assumes "1 \<le> \<bar>q\<bar>" and "\<bar>q\<bar> < 2 ^ 1024 - 2 ^ 970"
  shows "rounded_abs q < 2 ^ 1024"
proof -
  have "\<bar>q\<bar> < 2 powi 1024"
    using assms(2) by simp
  then have "float_exponent q < 1024"
    using assms(1) by (intro float_exponent_less)
  then have "(2::rat) powi (float_exponent q - 53) \<le> 2 powi 970"
    by (intro power_int_increasing) simp_all
  then have "\<bar>rounded_abs q - \<bar>q\<bar>\<bar> \<le> 2 ^ 970"
    using rounded_abs_near [OF assms(1)] by simp
  then show ?thesis
    using assms(2) by linarith
qed

lemma rounded_abs_overflow:
  assumes "2 ^ 1024 - 2 ^ 970 \<le> \<bar>q\<bar>"
  shows "2 ^ 1024 \<le> rounded_abs q"
proof -
  have big: "(2::rat) powi 1023 \<le> \<bar>q\<bar>"
    using assms by simp
  have "(1::rat) \<le> 2 powi 1023"
    by simp
  then have one: "1 \<le> \<bar>q\<bar>"
    using big by (rule order_trans)
  have e: "1023 \<le> float_exponent q"
    using one big by (rule float_exponent_ge)
  show ?thesis
  proof (cases "1024 \<le> float_exponent q")
    case True
    then have "(2::rat) powi 1024 \<le> 2 powi float_exponent q"
      by (intro power_int_increasing) simp_all
    then show ?thesis
      using rounded_abs_ge_powi [OF one] by simp
  next
    case False
    then have e: "float_exponent q = 1023"
      using e by simp
    have "(2 ^ 1024 - 2 ^ 970) / 2 ^ 971 \<le> \<bar>q\<bar> / 2 ^ 971"
      using assms by (simp add: divide_right_mono)
    moreover have "((2::rat) ^ 1024 - 2 ^ 970) / 2 ^ 971 = of_int (2 ^ 53) - 1 / 2"
      by simp
    ultimately have "of_int (2 ^ 53) - 1 / 2 \<le> \<bar>q\<bar> / 2 ^ 971"
      by simp
    then have "2 ^ 53 \<le> round_half_even (\<bar>q\<bar> / 2 ^ 971)"
      by (intro round_half_even_ge_even) simp_all
    then have "(of_int (2 ^ 53) :: rat) \<le> of_int (round_half_even (\<bar>q\<bar> / 2 ^ 971))"
      by (simp only: of_int_le_iff)
    then have "(of_int (2 ^ 53) :: rat) * 2 ^ 971 \<le> of_int (round_half_even (\<bar>q\<bar> / 2 ^ 971)) * 2 ^ 971"
      by (intro mult_right_mono) simp_all
    then show ?thesis
      by (simp add: rounded_abs_def e)
  qed
qed

lemma round_double_overflow_iff:
  assumes "1 \<le> \<bar>q\<bar>"
  shows "round_double q = Inl OverflowError \<longleftrightarrow> 2 ^ 1024 - 2 ^ 970 \<le> \<bar>q\<bar>"
proof
  assume "round_double q = Inl OverflowError"
  then have "2 ^ 1024 \<le> rounded_abs q"
    unfolding round_double_eq [OF assms] by (simp split: if_splits)
  then show "2 ^ 1024 - 2 ^ 970 \<le> \<bar>q\<bar>"
    using rounded_abs_no_overflow [OF assms] by fastforce
next
  assume "2 ^ 1024 - 2 ^ 970 \<le> \<bar>q\<bar>"
  then have "2 ^ 1024 \<le> rounded_abs q"
    by (rule rounded_abs_overflow)
  then show "round_double q = Inl OverflowError"
    unfolding round_double_eq [OF assms] by simp
qed

lemma round_double_finite:
  assumes "1 \<le> \<bar>q\<bar>" and "\<bar>q\<bar> < 2 ^ 1024 - 2 ^ 970"
  shows "round_double q = Inr (sgn q * rounded_abs q)"
proof -
  have "rounded_abs q < 2 ^ 1024"
    using assms by (rule rounded_abs_no_overflow)
  then show ?thesis
    unfolding round_double_eq [OF assms(1)] by simp
qed

lemma round_double_positive:
  assumes "1 \<le> q" and "q < 2 ^ 1024 - 2 ^ 970"
  shows "round_double q = Inr (rounded_abs q)" and "rounded_abs q < 2 ^ 1024"
proof -
  have a: "1 \<le> \<bar>q\<bar>" and b: "\<bar>q\<bar> < 2 ^ 1024 - 2 ^ 970"
    using assms by simp_all
  show "round_double q = Inr (rounded_abs q)"
    using round_double_finite [OF a b] assms(1) by simp
  show "rounded_abs q < 2 ^ 1024"
    using a b by (rule rounded_abs_no_overflow)
qed

lemma rounded_abs_ge_power:
  assumes "1 \<le> q" and "2 ^ j \<le> q"
  shows "2 ^ j \<le> rounded_abs q"
proof -
  have a: "1 \<le> \<bar>q\<bar>"
    using assms(1) by simp
  have "2 powi int j \<le> \<bar>q\<bar>"
    using assms by simp
  then have "int j \<le> float_exponent q"
    using a by (intro float_exponent_ge)
  then have "(2::rat) powi int j \<le> 2 powi float_exponent q"
    by (intro power_int_increasing) simp_all
  then show ?thesis
    using rounded_abs_ge_powi [OF a] by simp
qed

lemma rounded_abs_exact:
  assumes "\<bar>q\<bar> / 2 powi (float_exponent q - 52) = of_int j"
  shows "rounded_abs q = \<bar>q\<bar>"
proof -
  have "rounded_abs q = \<bar>q\<bar> / 2 powi (float_exponent q - 52) * 2 powi (float_exponent q - 52)"
    unfolding rounded_abs_def assms by simp
  then show ?thesis
    by simp
qed

lemma rounded_abs_dyadic:
  assumes "2 ^ k \<le> \<bar>n\<bar>" and "\<bar>n\<bar> < 2 ^ 53"
  shows "1 \<le> \<bar>of_int n / 2 ^ k :: rat\<bar>" and "rounded_abs (of_int n / 2 ^ k) = \<bar>of_int n / 2 ^ k\<bar>"
proof -
  let ?q = "of_int n / 2 ^ k :: rat"
  let ?e = "float_exponent ?q"
  have absq: "\<bar>?q\<bar> = of_int \<bar>n\<bar> / 2 ^ k"
    by simp
  have "(of_int (2 ^ k) :: rat) \<le> of_int \<bar>n\<bar>"
    using assms(1) by (simp only: of_int_le_iff)
  then show one: "1 \<le> \<bar>?q\<bar>"
    unfolding absq by (simp add: le_divide_eq)
  have "(of_int \<bar>n\<bar> :: rat) < of_int (2 ^ 53)"
    using assms(2) by (simp only: of_int_less_iff)
  then have "\<bar>?q\<bar> < 2 ^ 53 / 2 ^ k"
    unfolding absq by (simp add: divide_strict_right_mono)
  also have "(2::rat) ^ 53 / 2 ^ k = 2 powi (53 - int k)"
    by (simp add: power_int_diff)
  finally have "?e < 53 - int k"
    using one by (intro float_exponent_less)
  then have d: "0 \<le> 52 - ?e - int k"
    by simp
  have "\<bar>?q\<bar> / 2 powi (?e - 52) = of_int \<bar>n\<bar> * (1 / (2 powi int k * 2 powi (?e - 52)))"
    unfolding absq by simp
  also have "(2::rat) powi int k * 2 powi (?e - 52) = 2 powi (int k + (?e - 52))"
    by (rule power_int_add [symmetric]) simp
  also have "1 / (2::rat) powi (int k + (?e - 52)) = 2 powi (52 - ?e - int k)"
    by (simp add: power_int_minus_divide [symmetric] algebra_simps)
  also have "(2::rat) powi (52 - ?e - int k) = of_int (2 ^ nat (52 - ?e - int k))"
    using d by (simp add: power_int_def)
  finally have "\<bar>?q\<bar> / 2 powi (?e - 52) = of_int (\<bar>n\<bar> * 2 ^ nat (52 - ?e - int k))"
    by simp
  then show "rounded_abs ?q = \<bar>?q\<bar>"
    by (rule rounded_abs_exact)
qed

lemma round_double_dyadic:
  assumes "2 ^ k \<le> \<bar>n\<bar>" and "\<bar>n\<bar> < 2 ^ 53"
  shows "round_double (of_int n / 2 ^ k) = Inr (of_int n / 2 ^ k)"
proof -
  let ?q = "of_int n / 2 ^ k :: rat"
  note r = rounded_abs_dyadic [OF assms]
  have "(of_int \<bar>n\<bar> :: rat) < of_int (2 ^ 53)"
    using assms(2) by (simp only: of_int_less_iff)
  moreover have "(of_int \<bar>n\<bar> :: rat) * 1 \<le> of_int \<bar>n\<bar> * 2 ^ k"
    by (intro mult_left_mono) simp_all
  then have "(of_int \<bar>n\<bar> :: rat) / 2 ^ k \<le> of_int \<bar>n\<bar>"
    by (simp add: divide_le_eq)
  ultimately have "\<bar>?q\<bar> < 2 ^ 53"
    by simp
  then have "rounded_abs ?q < 2 ^ 1024"
    unfolding r(2) by simp
  then have "round_double ?q = Inr (sgn ?q * \<bar>?q\<bar>)"
    unfolding round_double_eq [OF r(1)] r(2) by simp
  then show ?thesis
    by (simp only: sgn_mult_abs)
qed

lemma round_double_int:
  assumes "\<bar>n\<bar> < 2 ^ 53"
  shows "round_double (of_int n) = Inr (of_int n)"
proof (cases "n = 0")
  case True
  then show ?thesis
    by (simp add: round_double_def)
next
  case False
  then have "2 ^ 0 \<le> \<bar>n\<bar>"
    by simp
  then have "round_double (of_int n / 2 ^ 0) = Inr (of_int n / 2 ^ 0)"
    using assms by (rule round_double_dyadic)
  then show ?thesis
    by simp
qed

subsection \<open>The loop over the units\<close>

lemma divide_step:
  assumes "1024 \<le> q" and "q < 2 ^ 1024"
  shows "round_double (q / 1024) = Inr (rounded_abs (q / 1024))"
    and "rounded_abs (q / 1024) < 2 ^ 1024"
proof -
  have one: "1 \<le> q / 1024"
    using assms(1) by simp
  have "q / 1024 < 2 ^ 1024 / 1024"
    using assms(2) by (simp add: divide_strict_right_mono)
  also have "(2::rat) ^ 1024 / 1024 \<le> 2 ^ 1024 - 2 ^ 970"
    by simp
  finally have lt: "q / 1024 < 2 ^ 1024 - 2 ^ 970" .
  show "round_double (q / 1024) = Inr (rounded_abs (q / 1024))"
    using one lt by (rule round_double_positive)
  show "rounded_abs (q / 1024) < 2 ^ 1024"
    using one lt by (rule round_double_positive)
qed

lemma power_1024: "(1024::rat) ^ m = 2 ^ (10 * m)"
  by (simp add: power_mult)

lemma loop_exact:
  assumes "2 ^ k \<le> n" and "n < 2 ^ 53"
  shows "last (u # us) = ''TiB'' \<Longrightarrow> ''TiB'' \<notin> set (butlast (u # us)) \<Longrightarrow>
     format_bytes_loop (u # us) (PyFloat (of_int n / 2 ^ k)) =
       Inr (Some (case scale_units u us (of_int n / 2 ^ k) of (q, v) \<Rightarrow> fixed_2f q @ '' '' @ v))"
  using assms(1)
proof (induction us arbitrary: u k)
  case Nil
  then show ?case by simp
next
  case (Cons v us)
  let ?q = "of_int n / 2 ^ k :: rat"
  have u: "u \<noteq> ''TiB''"
    using Cons.prems(2) by auto
  show ?case
  proof (cases "?q < 1024")
    case True
    then show ?thesis
      using u by simp
  next
    case False
    then have "1024 \<le> ?q"
      by simp
    then have "(2::rat) ^ 10 * 2 ^ k \<le> of_int n"
      by (simp add: le_divide_eq)
    then have "(of_int (2 ^ (k + 10)) :: rat) \<le> of_int n"
      by (simp add: power_add mult.commute)
    then have le: "2 ^ (k + 10) \<le> n"
      by (simp only: of_int_le_iff)
    then have abs_le: "2 ^ (k + 10) \<le> \<bar>n\<bar>"
      by simp
    have "0 \<le> n"
      using le by (rule order_trans [rotated]) simp
    then have abs_lt: "\<bar>n\<bar> < 2 ^ 53"
      using assms(2) by simp
    have div: "?q / 1024 = of_int n / 2 ^ (k + 10)"
      by (simp add: power_add)
    have rd: "round_double (?q / 1024) = Inr (of_int n / 2 ^ (k + 10))"
      unfolding div using abs_le abs_lt by (rule round_double_dyadic)
    have rest: "format_bytes_loop (v # us) (PyFloat (of_int n / 2 ^ (k + 10))) =
       Inr (Some (case scale_units v us (of_int n / 2 ^ (k + 10)) of (q, w) \<Rightarrow> fixed_2f q @ '' '' @ w))"
      using Cons.prems le by (intro Cons.IH) simp_all
    have "format_bytes_loop (u # v # us) (PyFloat ?q)
        = format_bytes_loop (v # us) (PyFloat (of_int n / 2 ^ (k + 10)))"
      using False u rd by (simp add: format_bytes_loop.simps(2) [of u] del: format_bytes_loop.simps(2))
    moreover have "scale_units u (v # us) ?q = scale_units v us (?q / 1024)"
      using False by simp
    then have "scale_units u (v # us) ?q = scale_units v us (of_int n / 2 ^ (k + 10))"
      by (simp only: div)
    ultimately show ?thesis
      using rest by simp
  qed
qed

lemma scale_units_large:
  "1024 ^ length us \<le> a \<Longrightarrow> scale_units u us a = (a / 1024 ^ length us, last (u # us))"
proof (induction us arbitrary: u a)
  case Nil
  then show ?case by simp
next
  case (Cons v us)
  have big: "1024 * 1024 ^ length us \<le> a"
    using Cons.prems by simp
  have "(1::rat) \<le> 1024 ^ length us"
    by simp
  then have "(1024::rat) * 1 \<le> 1024 * 1024 ^ length us"
    by (intro mult_left_mono) simp_all
  then have ge: "1024 \<le> a"
    using order_trans [OF _ big] by simp
  have "(1024::rat) ^ length us \<le> a / 1024"
    using big by (simp add: le_divide_eq mult.commute)
  then have "scale_units v us (a / 1024) = (a / 1024 / 1024 ^ length us, last (v # us))"
    by (rule Cons.IH)
  then show ?case
    using ge by simp
qed

lemma rounded_abs_relative:
  assumes "1 \<le> \<bar>q\<bar>"
  shows "\<bar>rounded_abs q - \<bar>q\<bar>\<bar> \<le> \<bar>q\<bar> / 2 ^ 53"
proof -
  have "(2::rat) powi (float_exponent q - 53) = 2 powi float_exponent q / 2 powi 53"
    by (rule power_int_diff) simp
  also have "\<dots> \<le> \<bar>q\<bar> / 2 powi 53"
    using float_exponent_bounds(2) [OF assms] by (intro divide_right_mono) simp_all
  finally have "(2::rat) powi (float_exponent q - 53) \<le> \<bar>q\<bar> / 2 ^ 53"
    by simp
  then show ?thesis
    using rounded_abs_near [OF assms] by (rule order_trans [rotated])
qed

lemma powi_le_cancel: "(2::rat) powi a \<le> 2 powi b \<Longrightarrow> a \<le> b"
proof (rule ccontr)
  assume le: "(2::rat) powi a \<le> 2 powi b" and "\<not> a \<le> b"
  then have "(2::rat) powi b < 2 powi a"
    by (intro power_int_strict_increasing) simp_all
  then show False
    using le by simp
qed

lemma rounded_abs_double:
  assumes "2 ^ 52 \<le> m" and "m \<le> 2 ^ 53" and "(1::rat) \<le> of_int m * 2 powi p"
  shows "rounded_abs (of_int m * 2 powi p) = of_int m * 2 powi p"
proof -
  let ?q = "of_int m * 2 powi p :: rat"
  let ?e = "float_exponent ?q"
  have m: "0 < m"
    using assms(1) by (rule less_le_trans [rotated]) simp
  then have absq: "\<bar>?q\<bar> = ?q"
    by (simp add: abs_mult)
  have one: "1 \<le> \<bar>?q\<bar>"
    using assms(3) absq by simp
  have "(of_int (2 ^ 52) :: rat) \<le> of_int m"
    using assms(1) by (simp only: of_int_le_iff)
  then have m_lo: "(2::rat) powi 52 \<le> of_int m"
    by simp
  have "(2::rat) powi (p + 52) = 2 powi 52 * 2 powi p"
    by (simp add: power_int_add mult.commute)
  also have "\<dots> \<le> of_int m * 2 powi p"
    using m_lo by (intro mult_right_mono) simp_all
  finally have "(2::rat) powi (p + 52) \<le> \<bar>?q\<bar>"
    unfolding absq .
  then have lo: "p + 52 \<le> ?e"
    using one by (intro float_exponent_ge)
  have "(of_int m :: rat) \<le> of_int (2 ^ 53)"
    using assms(2) by (simp only: of_int_le_iff)
  then have m_hi: "of_int m \<le> (2::rat) powi 53"
    by simp
  have "?q \<le> 2 powi 53 * 2 powi p"
    using m_hi by (intro mult_right_mono) simp_all
  also have "\<dots> = 2 powi (p + 53)"
    by (simp add: power_int_add mult.commute)
  finally have up: "\<bar>?q\<bar> \<le> 2 powi (p + 53)"
    unfolding absq .
  have "(2::rat) powi ?e \<le> 2 powi (p + 53)"
    using float_exponent_bounds(2) [OF one] up by (rule order_trans)
  then have hi: "?e \<le> p + 53"
    by (rule powi_le_cancel)
  have t: "\<bar>?q\<bar> / 2 powi (?e - 52) = of_int m * 2 powi (p - (?e - 52))"
    unfolding absq by (simp add: power_int_diff)
  show ?thesis
  proof (cases "?e = p + 52")
    case True
    then have "\<bar>?q\<bar> / 2 powi (?e - 52) = of_int m"
      unfolding t by simp
    then have "rounded_abs ?q = \<bar>?q\<bar>"
      by (rule rounded_abs_exact)
    then show ?thesis
      by (simp only: absq)
  next
    case False
    then have e: "?e = p + 53"
      using lo hi by simp
    have "(2::rat) powi (p + 53) \<le> of_int m * 2 powi p"
      using float_exponent_bounds(2) [OF one] unfolding absq e .
    moreover have "(2::rat) powi (p + 53) = 2 powi 53 * 2 powi p"
      by (simp add: power_int_add mult.commute)
    ultimately have "(2::rat) powi 53 * 2 powi p \<le> of_int m * 2 powi p"
      by (simp only:)
    then have "(2::rat) powi 53 \<le> of_int m"
      by (simp only: mult_le_cancel_right) simp
    then have "(of_int (2 ^ 53) :: rat) \<le> of_int m"
      by simp
    then have "2 ^ 53 \<le> m"
      by (simp only: of_int_le_iff)
    then have m53: "m = 2 ^ 53"
      using assms(2) by simp
    have "p - (?e - 52) = - 1"
      by (simp add: e)
    then have "\<bar>?q\<bar> / 2 powi (?e - 52) = of_int m * 2 powi (- 1)"
      using t by (simp only:)
    also have "\<dots> = of_int (2 ^ 52)"
      unfolding m53 by simp
    finally have "rounded_abs ?q = \<bar>?q\<bar>"
      by (rule rounded_abs_exact)
    then show ?thesis
      by (simp only: absq)
  qed
qed

lemma loop_double:
  assumes "2 ^ 52 \<le> m" and "m \<le> 2 ^ 53"
  shows "last (u # us) = ''TiB'' \<Longrightarrow> ''TiB'' \<notin> set (butlast (u # us)) \<Longrightarrow>
   (1024::rat) ^ length us \<le> of_int m * 2 powi p \<Longrightarrow> of_int m * 2 powi p < (2::rat) ^ 1024 \<Longrightarrow>
     format_bytes_loop (u # us) (PyFloat (of_int m * 2 powi p))
       = Inr (Some (fixed_2f (of_int m * 2 powi p / 1024 ^ length us) @ '' TiB''))"
proof (induction us arbitrary: u p)
  case Nil
  then show ?case by simp
next
  case (Cons v us)
  let ?q = "of_int m * 2 powi p :: rat"
  have u: "u \<noteq> ''TiB''"
    using Cons.prems(2) by auto
  have big: "1024 * 1024 ^ length us \<le> ?q"
    using Cons.prems(3) by simp
  have "(1::rat) \<le> 1024 ^ length us"
    by simp
  then have "(1024::rat) * 1 \<le> 1024 * 1024 ^ length us"
    by (intro mult_left_mono) simp_all
  then have ge: "1024 \<le> ?q"
    using order_trans [OF _ big] by simp
  note s = divide_step [OF ge Cons.prems(4)]
  have div: "?q / 1024 = of_int m * 2 powi (p - 10)"
    by (simp add: power_int_diff)
  have "1 \<le> ?q / 1024"
    using ge by simp
  then have ra: "rounded_abs (?q / 1024) = ?q / 1024"
    unfolding div using assms by (intro rounded_abs_double)
  have "round_double (?q / 1024) = Inr (?q / 1024)"
    using s(1) by (simp only: ra)
  then have rd: "round_double (?q / 1024) = Inr (of_int m * 2 powi (p - 10))"
    by (simp only: div)
  have next_big: "(1024::rat) ^ length us \<le> of_int m * 2 powi (p - 10)"
    using big unfolding div [symmetric] by (simp add: le_divide_eq mult.commute)
  have "(0::rat) \<le> ?q"
    using ge by simp
  then have "?q / 1024 \<le> ?q"
    by (simp add: divide_le_eq)
  then have next_lt: "of_int m * 2 powi (p - 10) < (2::rat) ^ 1024"
    unfolding div [symmetric] using Cons.prems(4) by (rule le_less_trans)
  have "format_bytes_loop (v # us) (PyFloat (of_int m * 2 powi (p - 10)))
       = Inr (Some (fixed_2f (of_int m * 2 powi (p - 10) / 1024 ^ length us) @ '' TiB''))"
    using Cons.prems(1,2) next_big next_lt by (intro Cons.IH) simp_all
  moreover have "format_bytes_loop (u # v # us) (PyFloat ?q)
        = format_bytes_loop (v # us) (PyFloat (of_int m * 2 powi (p - 10)))"
    using ge u rd by (simp add: format_bytes_loop.simps(2) [of u] del: format_bytes_loop.simps(2))
  moreover have "of_int m * 2 powi (p - 10) / 1024 ^ length us = ?q / 1024 ^ length (v # us)"
    unfolding div [symmetric] by simp
  ultimately show ?case
    by simp
qed

subsection \<open>The formatter on the integers\<close>

lemma scale_units_unit: "snd (scale_units u us a) \<in> set (u # us)"
  by (induction us arbitrary: u a) auto

lemma format_bytes_first_unit:
  "n < 1024 \<Longrightarrow> format_bytes n =
     (case round_double (of_int n) of Inl e \<Rightarrow> Inl e | Inr q \<Rightarrow> Inr (Some (fixed_2f q @ '' B'')))"
  by (simp add: format_bytes_def split: sum.splits)

lemma format_bytes_divides:
  "1024 \<le> n \<Longrightarrow> format_bytes n =
     (case round_double (of_int n / 1024) of Inl e \<Rightarrow> Inl e
      | Inr q \<Rightarrow> format_bytes_loop [''KiB'', ''MiB'', ''GiB'', ''TiB''] (PyFloat q))"
  by (simp add: format_bytes_def split: sum.splits)

lemma format_bytes_exact:
  assumes "0 \<le> n" and "n < 2 ^ 53"
  shows "format_bytes n = Inr (Some (fixed_2f (fst (scaled_bytes n)) @ '' '' @ snd (scaled_bytes n)))"
proof (cases "n < 1024")
  case True
  have "\<bar>n\<bar> < 2 ^ 53"
    using assms by simp
  then have "round_double (of_int n) = Inr (of_int n)"
    by (rule round_double_int)
  moreover have "scaled_bytes n = (of_int n, ''B'')"
    using True by (simp add: scaled_bytes_def)
  ultimately show ?thesis
    using True by (simp add: format_bytes_first_unit)
next
  case False
  then have le: "2 ^ 10 \<le> n"
    by simp
  then have "2 ^ 10 \<le> \<bar>n\<bar>" and "\<bar>n\<bar> < 2 ^ 53"
    using assms by simp_all
  then have "round_double (of_int n / 2 ^ 10) = Inr (of_int n / 2 ^ 10)"
    by (rule round_double_dyadic)
  then have rd: "round_double (of_int n / 1024) = Inr (of_int n / 2 ^ 10)"
    by simp
  have loop: "format_bytes_loop [''KiB'', ''MiB'', ''GiB'', ''TiB''] (PyFloat (of_int n / 2 ^ 10)) =
       Inr (Some (case scale_units ''KiB'' [''MiB'', ''GiB'', ''TiB''] (of_int n / 2 ^ 10) of
                    (q, v) \<Rightarrow> fixed_2f q @ '' '' @ v))"
    using le assms(2) by (rule loop_exact) simp_all
  have "scaled_bytes n = scale_units ''KiB'' [''MiB'', ''GiB'', ''TiB''] (of_int n / 1024)"
    using False by (simp add: scaled_bytes_def)
  also have "of_int n / 1024 = (of_int n / 2 ^ 10 :: rat)"
    by simp
  finally have sb: "scale_units ''KiB'' [''MiB'', ''GiB'', ''TiB''] (of_int n / 2 ^ 10) = scaled_bytes n"
    by simp
  have "format_bytes n = format_bytes_loop [''KiB'', ''MiB'', ''GiB'', ''TiB''] (PyFloat (of_int n / 2 ^ 10))"
    using False rd by (simp only: format_bytes_divides not_less sum.case)
  then show ?thesis
    unfolding loop sb by (simp add: case_prod_unfold)
qed

lemma scaled_bytes_large:
  assumes "2 ^ 40 \<le> n"
  shows "scaled_bytes n = (of_int n / 1024 ^ 4, ''TiB'')"
proof -
  have "(of_int (2 ^ 40) :: rat) \<le> of_int n"
    using assms by (simp only: of_int_le_iff)
  then have "(1024::rat) ^ length [''KiB'', ''MiB'', ''GiB'', ''TiB''] \<le> of_int n"
    by simp
  then have "scale_units ''B'' [''KiB'', ''MiB'', ''GiB'', ''TiB''] (of_int n)
      = (of_int n / 1024 ^ length [''KiB'', ''MiB'', ''GiB'', ''TiB''],
         last [''B'', ''KiB'', ''MiB'', ''GiB'', ''TiB''])"
    by (rule scale_units_large)
  then show ?thesis
    by (simp add: scaled_bytes_def)
qed

lemma format_bytes_large:
  assumes "2 ^ 40 \<le> n" and "n < 2 ^ 1034 - 2 ^ 980"
  shows "format_bytes n = Inr (Some (fixed_2f (rounded_abs (of_int n / 1024) / 1024 ^ 3) @ '' TiB''))"
proof -
  let ?q = "of_int n / 1024 :: rat"
  let ?m = "round_half_even (\<bar>?q\<bar> / 2 powi (float_exponent ?q - 52))"
  let ?p = "float_exponent ?q - 52"
  have "(of_int (2 ^ 40) :: rat) \<le> of_int n"
    using assms(1) by (simp only: of_int_le_iff)
  then have big: "2 ^ 30 \<le> ?q"
    by simp
  then have one: "1 \<le> ?q"
    by simp
  then have abs_one: "1 \<le> \<bar>?q\<bar>"
    by simp
  have "(of_int n :: rat) < of_int (2 ^ 1034 - 2 ^ 980)"
    using assms(2) by (simp only: of_int_less_iff)
  then have lt: "?q < 2 ^ 1024 - 2 ^ 970"
    by simp
  note rd = round_double_positive [OF one lt]
  have ge: "2 ^ 30 \<le> rounded_abs ?q"
    using one big by (rule rounded_abs_ge_power)
  have form: "rounded_abs ?q = of_int ?m * 2 powi ?p"
    by (simp only: rounded_abs_def)
  have "format_bytes_loop [''KiB'', ''MiB'', ''GiB'', ''TiB''] (PyFloat (of_int ?m * 2 powi ?p))
       = Inr (Some (fixed_2f (of_int ?m * 2 powi ?p / 1024 ^ length [''MiB'', ''GiB'', ''TiB'']) @ '' TiB''))"
    using round_double_mantissa [OF abs_one]
  proof (rule loop_double)
    show "(1024::rat) ^ length [''MiB'', ''GiB'', ''TiB''] \<le> of_int ?m * 2 powi ?p"
      using ge unfolding form by simp
    show "of_int ?m * 2 powi ?p < (2::rat) ^ 1024"
      using rd(2) unfolding form .
  qed simp_all
  then have loop: "format_bytes_loop [''KiB'', ''MiB'', ''GiB'', ''TiB''] (PyFloat (rounded_abs ?q))
       = Inr (Some (fixed_2f (rounded_abs ?q / 1024 ^ 3) @ '' TiB''))"
    unfolding form [symmetric] by simp
  have "1024 \<le> n"
    using assms(1) by simp
  then have "format_bytes n = format_bytes_loop [''KiB'', ''MiB'', ''GiB'', ''TiB''] (PyFloat (rounded_abs ?q))"
    using rd(1) by (simp only: format_bytes_divides sum.case)
  then show ?thesis
    by (simp only: loop)
qed

lemma format_bytes_large_error:
  assumes "2 ^ 40 \<le> n"
  shows "\<bar>rounded_abs (of_int n / 1024) / 1024 ^ 3 - of_int n / 1024 ^ 4\<bar> \<le> of_int n / 1024 ^ 4 / 2 ^ 53"
proof -
  let ?q = "of_int n / 1024 :: rat"
  have "(of_int (2 ^ 40) :: rat) \<le> of_int n"
    using assms by (simp only: of_int_le_iff)
  then have one: "1 \<le> ?q"
    by simp
  then have absq: "\<bar>?q\<bar> = ?q" and abs_one: "1 \<le> \<bar>?q\<bar>"
    by simp_all
  have "\<bar>rounded_abs ?q - ?q\<bar> \<le> ?q / 2 ^ 53"
    using rounded_abs_relative [OF abs_one] unfolding absq .
  then have "\<bar>rounded_abs ?q - ?q\<bar> / 1024 ^ 3 \<le> ?q / 2 ^ 53 / 1024 ^ 3"
    by (intro divide_right_mono) simp_all
  moreover have "rounded_abs ?q / 1024 ^ 3 - of_int n / 1024 ^ 4 = (rounded_abs ?q - ?q) / 1024 ^ 3"
    by (simp add: diff_divide_distrib)
  then have "\<bar>rounded_abs ?q - ?q\<bar> / 1024 ^ 3 = \<bar>rounded_abs ?q / 1024 ^ 3 - of_int n / 1024 ^ 4\<bar>"
    by (simp only: abs_divide) simp
  moreover have "?q / 2 ^ 53 / 1024 ^ 3 = of_int n / 1024 ^ 4 / 2 ^ 53"
    by simp
  ultimately show ?thesis
    by (simp only:)
qed

lemma format_bytes_overflow:
  assumes "2 ^ 1034 - 2 ^ 980 \<le> n"
  shows "format_bytes n = Inl OverflowError"
proof -
  let ?q = "of_int n / 1024 :: rat"
  have "(of_int (2 ^ 1034 - 2 ^ 980) :: rat) \<le> of_int n"
    using assms by (simp only: of_int_le_iff)
  then have big: "2 ^ 1024 - 2 ^ 970 \<le> ?q"
    by simp
  then have "0 \<le> ?q"
    by (rule order_trans [rotated]) simp
  then have "2 ^ 1024 - 2 ^ 970 \<le> \<bar>?q\<bar>"
    using big by simp
  moreover from this have "1 \<le> \<bar>?q\<bar>"
    by (rule order_trans [rotated]) simp
  ultimately have "round_double ?q = Inl OverflowError"
    by (simp only: round_double_overflow_iff)
  moreover have "1024 \<le> n"
    using assms by (rule order_trans [rotated]) simp
  ultimately show ?thesis
    by (simp only: format_bytes_divides sum.case)
qed

lemma format_bytes_negative:
  assumes "n < 0" and "- (2 ^ 1024 - 2 ^ 970) < n"
  shows "format_bytes n = Inr (Some (fixed_2f (- rounded_abs (of_int n)) @ '' B''))"
proof -
  let ?q = "of_int n :: rat"
  have one: "1 \<le> \<bar>?q\<bar>"
    using assms(1) by (simp add: abs_if)
  have "(of_int (- (2 ^ 1024 - 2 ^ 970)) :: rat) < of_int n"
    using assms(2) by (simp only: of_int_less_iff)
  then have "\<bar>?q\<bar> < 2 ^ 1024 - 2 ^ 970"
    using assms(1) by simp
  then have "round_double ?q = Inr (sgn ?q * rounded_abs ?q)"
    using one by (intro round_double_finite)
  moreover have "sgn ?q = - 1"
    using assms(1) by simp
  moreover have "n < 1024"
    using assms(1) by simp
  ultimately show ?thesis
    by (simp add: format_bytes_first_unit)
qed

lemma format_bytes_negative_overflow:
  assumes "n \<le> - (2 ^ 1024 - 2 ^ 970)"
  shows "format_bytes n = Inl OverflowError"
proof -
  let ?q = "of_int n :: rat"
  have "(of_int n :: rat) \<le> of_int (- (2 ^ 1024 - 2 ^ 970))"
    using assms by (simp only: of_int_le_iff)
  then have big: "2 ^ 1024 - 2 ^ 970 \<le> \<bar>?q\<bar>"
    by simp
  moreover from this have "1 \<le> \<bar>?q\<bar>"
    by (rule order_trans [rotated]) simp
  ultimately have "round_double ?q = Inl OverflowError"
    by (simp only: round_double_overflow_iff)
  moreover have "n < 1024"
    using assms by (rule le_less_trans) simp
  ultimately show ?thesis
    by (simp add: format_bytes_first_unit)
qed

lemma scale_units_nonneg: "0 \<le> a \<Longrightarrow> 0 \<le> fst (scale_units u us a)"
  by (induction us arbitrary: u a) auto

lemma fixed_2f_0: "fixed_2f 0 = ''0.00''"
  by (simp add: fixed_2f_def round_half_even_def digit_char_def)

lemma fixed_2f_1: "fixed_2f 1 = ''1.00''"
  by (simp add: fixed_2f_def round_half_even_def digit_char_def)

lemma fixed_2f_1023: "fixed_2f 1023 = ''1023.00''"
  by (simp add: fixed_2f_def round_half_even_def digit_char_def)

lemma fixed_2f_minus_5: "fixed_2f (- 5) = ''-5.00''"
  by (simp add: fixed_2f_def round_half_even_def digit_char_def)

text \<open>
  Claim C2.  For a byte count \<open>0 \<le> n < 2 ^ 1034 - 2 ^ 980\<close> the formatter raises nothing and
  returns a number with two decimals followed by the unit of the specification: the unit
  reached by dividing by 1024 until the magnitude is below 1024 or the unit is TiB.  The
  number shown is the scaled magnitude itself when \<open>n < 2 ^ 53\<close>, and within a relative
  error of \<open>2 ^ -53\<close> of it otherwise.  From \<open>2 ^ 1034 - 2 ^ 980\<close> on the first division
  overflows, so the bound on \<open>n\<close> is needed.
\<close>

theorem format_bytes_scales_units:
  assumes "0 \<le> n" and "n < 2 ^ 1034 - 2 ^ 980"
  shows "\<exists>r. format_bytes n = Inr (Some (fixed_2f r @ '' '' @ snd (scaled_bytes n)))
     \<and> (n < 2 ^ 53 \<longrightarrow> r = fst (scaled_bytes n))
     \<and> \<bar>r - fst (scaled_bytes n)\<bar> \<le> fst (scaled_bytes n) / 2 ^ 53"
proof (cases "n < 2 ^ 53")
  case True
  have "0 \<le> fst (scaled_bytes n)"
    unfolding scaled_bytes_def using assms(1) by (intro scale_units_nonneg) simp
  then have "\<bar>fst (scaled_bytes n) - fst (scaled_bytes n)\<bar> \<le> fst (scaled_bytes n) / 2 ^ 53"
    by simp
  then show ?thesis
    using format_bytes_exact [OF assms(1) True] by blast
next
  case False
  then have "2 ^ 53 \<le> n"
    by simp
  then have big: "2 ^ 40 \<le> n"
    by (rule order_trans [rotated]) simp
  have sb: "scaled_bytes n = (of_int n / 1024 ^ 4, ''TiB'')"
    using big by (rule scaled_bytes_large)
  have "format_bytes n = Inr (Some (fixed_2f (rounded_abs (of_int n / 1024) / 1024 ^ 3) @ '' '' @ snd (scaled_bytes n)))"
    using format_bytes_large [OF big assms(2)] by (simp add: sb)
  moreover have "\<bar>rounded_abs (of_int n / 1024) / 1024 ^ 3 - fst (scaled_bytes n)\<bar> \<le> fst (scaled_bytes n) / 2 ^ 53"
    using format_bytes_large_error [OF big] by (simp only: sb fst_conv)
  ultimately show ?thesis
    using False by blast
qed

text \<open>The four examples of the specification.\<close>

theorem format_bytes_scales_units_witness:
  "format_bytes 0 = Inr (Some ''0.00 B'') \<and> format_bytes 1023 = Inr (Some ''1023.00 B'')
   \<and> format_bytes 1024 = Inr (Some ''1.00 KiB'') \<and> format_bytes (1024 ^ 4) = Inr (Some ''1.00 TiB'')"
proof -
  have a: "scaled_bytes 0 = (0, ''B'')" and b: "scaled_bytes 1023 = (1023, ''B'')"
    and c: "scaled_bytes 1024 = (1, ''KiB'')" and d: "scaled_bytes 1099511627776 = (1, ''TiB'')"
    by (simp_all add: scaled_bytes_def)
  have "format_bytes 0 = Inr (Some ''0.00 B'')"
    using format_bytes_scales_units [of 0] by (auto simp: a fixed_2f_0)
  moreover have "format_bytes 1023 = Inr (Some ''1023.00 B'')"
    using format_bytes_scales_units [of 1023] by (auto simp: b fixed_2f_1023)
  moreover have "format_bytes 1024 = Inr (Some ''1.00 KiB'')"
    using format_bytes_scales_units [of 1024] by (auto simp: c fixed_2f_1)
  moreover have "format_bytes (1024 ^ 4) = Inr (Some ''1.00 TiB'')"
    using format_bytes_scales_units [of "1024 ^ 4"] by (auto simp: d fixed_2f_1)
  ultimately show ?thesis
    by simp
qed

text \<open>A byte count for which the formatter raises \<open>OverflowError\<close>: \<open>2 ^ 1034 / 1024\<close> is not
  a finite float.\<close>

theorem format_bytes_overflow_example: "format_bytes (2 ^ 1034) = Inl OverflowError"
  by (rule format_bytes_overflow) simp

lemma format_bytes_loop_never_None:
  "''TiB'' \<in> set units \<Longrightarrow> format_bytes_loop units num_bytes \<noteq> Inr None"
proof (induction units arbitrary: num_bytes)
  case Nil
  then show ?case by simp
next
  case (Cons unit units)
  show ?case
  proof (cases "lt_1024 num_bytes \<or> unit = ''TiB''")
    case True
    then show ?thesis
      by (cases "format_2f num_bytes") simp_all
  next
    case False
    then have "''TiB'' \<in> set units"
      using Cons.prems by auto
    then have "format_bytes_loop units q \<noteq> Inr None" for q
      by (rule Cons.IH)
    then show ?thesis
      using False by (cases "truediv_1024 num_bytes") simp_all
  qed
qed

lemma format_bytes_never_None: "format_bytes n \<noteq> Inr None"
  unfolding format_bytes_def by (rule format_bytes_loop_never_None) simp

lemma format_bytes_negative_exact:
  assumes "n < 0" and "- (2 ^ 53) < n"
  shows "format_bytes n = Inr (Some (fixed_2f (of_int n) @ '' B''))"
proof -
  have "\<bar>n\<bar> < 2 ^ 53"
    using assms by simp
  then have "round_double (of_int n) = Inr (of_int n)"
    by (rule round_double_int)
  moreover have "n < 1024"
    using assms(1) by simp
  ultimately show ?thesis
    by (simp add: format_bytes_first_unit)
qed

text \<open>
  Claim C10.  The formatter never returns \<open>None\<close>: the loop cannot end without reaching
  the \<open>return\<close>.  It returns a string, a number followed by one of the five units, exactly
  for \<open>- (2 ^ 1024 - 2 ^ 970) < n < 2 ^ 1034 - 2 ^ 980\<close>; a negative \<open>n\<close> in this range
  returns at once with the unit B.  Outside the range it raises \<open>OverflowError\<close>, so it is
  not total on the integers.
\<close>

theorem format_bytes_returns_string:
  "format_bytes n \<noteq> Inr None
   \<and> (- (2 ^ 1024 - 2 ^ 970) < n \<and> n < 2 ^ 1034 - 2 ^ 980 \<longrightarrow>
        (\<exists>s u. format_bytes n = Inr (Some (s @ '' '' @ u))
           \<and> u \<in> set [''B'', ''KiB'', ''MiB'', ''GiB'', ''TiB'']))
   \<and> (- (2 ^ 1024 - 2 ^ 970) < n \<and> n < 0 \<longrightarrow> (\<exists>s. format_bytes n = Inr (Some (s @ '' B''))))
   \<and> (n \<le> - (2 ^ 1024 - 2 ^ 970) \<or> 2 ^ 1034 - 2 ^ 980 \<le> n \<longrightarrow> format_bytes n = Inl OverflowError)"
proof -
  have none: "format_bytes n \<noteq> Inr None"
    by (rule format_bytes_never_None)
  have neg: "\<exists>s. format_bytes n = Inr (Some (s @ '' B''))"
    if "- (2 ^ 1024 - 2 ^ 970) < n" and "n < 0"
    using format_bytes_negative [OF that(2) that(1)] by blast
  have ok: "\<exists>s u. format_bytes n = Inr (Some (s @ '' '' @ u))
           \<and> u \<in> set [''B'', ''KiB'', ''MiB'', ''GiB'', ''TiB'']"
    if lo: "- (2 ^ 1024 - 2 ^ 970) < n" and hi: "n < 2 ^ 1034 - 2 ^ 980"
  proof (cases "n < 0")
    case True
    then obtain s where "format_bytes n = Inr (Some (s @ '' B''))"
      using neg [OF lo] by blast
    then have "format_bytes n = Inr (Some (s @ '' '' @ ''B''))
        \<and> ''B'' \<in> set [''B'', ''KiB'', ''MiB'', ''GiB'', ''TiB'']"
      by simp
    then show ?thesis
      by blast
  next
    case False
    then have nonneg: "0 \<le> n"
      by simp
    have unit: "snd (scaled_bytes n) \<in> set [''B'', ''KiB'', ''MiB'', ''GiB'', ''TiB'']"
      unfolding scaled_bytes_def by (rule scale_units_unit)
    show ?thesis
    proof (cases "n < 2 ^ 53")
      case True
      show ?thesis
        using format_bytes_exact [OF nonneg True] unit by blast
    next
      case False
      then have "2 ^ 53 \<le> n"
        by simp
      then have big: "2 ^ 40 \<le> n"
        by (rule order_trans [rotated]) simp
      have "format_bytes n
          = Inr (Some (fixed_2f (rounded_abs (of_int n / 1024) / 1024 ^ 3) @ '' '' @ ''TiB''))"
        using format_bytes_large [OF big hi] by simp
      moreover have "''TiB'' \<in> set [''B'', ''KiB'', ''MiB'', ''GiB'', ''TiB'']"
        by simp
      ultimately show ?thesis
        by blast
    qed
  qed
  have over: "format_bytes n = Inl OverflowError"
    if "n \<le> - (2 ^ 1024 - 2 ^ 970) \<or> 2 ^ 1034 - 2 ^ 980 \<le> n"
    using that format_bytes_negative_overflow [of n] format_bytes_overflow [of n] by blast
  show ?thesis
    using none ok neg over by blast
qed

text \<open>A negative byte count, and the largest negative one that overflows.\<close>

theorem format_bytes_returns_string_witness:
  "format_bytes (- 5) = Inr (Some ''-5.00 B'')
   \<and> (\<exists>s. format_bytes (- 5) = Inr (Some (s @ '' B'')))
   \<and> format_bytes (- 5) \<noteq> Inr None
   \<and> format_bytes (- (2 ^ 1024 - 2 ^ 970)) = Inl OverflowError"
proof -
  have "format_bytes (- 5) = Inr (Some ''-5.00 B'')"
    using format_bytes_negative_exact [of "- 5"] by (simp add: fixed_2f_minus_5)
  moreover have "\<exists>s. format_bytes (- 5) = Inr (Some (s @ '' B''))"
    using format_bytes_returns_string [of "- 5"] by simp
  moreover have "format_bytes (- 5) \<noteq> Inr None"
    using format_bytes_returns_string [of "- 5"] by simp
  moreover have "format_bytes (- (2 ^ 1024 - 2 ^ 970)) = Inl OverflowError"
    using format_bytes_returns_string [of "- (2 ^ 1024 - 2 ^ 970)"] by simp
  ultimately show ?thesis
    by simp
qed

text \<open>A negative byte count for which the formatter raises \<open>OverflowError\<close>: the
  conversion of \<open>- 2 ^ 1024\<close> to a float that the format makes.\<close>

theorem format_bytes_negative_overflow_example: "format_bytes (- (2 ^ 1024)) = Inl OverflowError"
  by (rule format_bytes_negative_overflow) simp

lemma digit_char_digit: "d < 10 \<Longrightarrow> digit_char d \<in> set ''0123456789''"
proof -
  assume "d < 10"
  then have "d \<in> {0, 1, 2, 3, 4, 5, 6, 7, 8, 9}"
    by auto
  then show ?thesis
    unfolding digit_char_def by (elim insertE emptyE) simp_all
qed

lemma decimal_digits_digits:
  "decimal_digits n \<noteq> [] \<and> set (decimal_digits n) \<subseteq> set ''0123456789''"
proof (induction n rule: decimal_digits.induct)
  case (1 n)
  show ?case
  proof (cases "n < 10")
    case True
    then have "decimal_digits n = [digit_char n]"
      by (subst decimal_digits.simps) simp
    then show ?thesis
      using digit_char_digit [OF True] by simp
  next
    case False
    then have eq: "decimal_digits n = decimal_digits (n div 10) @ [digit_char (n mod 10)]"
      by (subst decimal_digits.simps) simp
    have "digit_char (n mod 10) \<in> set ''0123456789''"
      by (rule digit_char_digit) simp
    then show ?thesis
      unfolding eq using 1 [OF False] by simp
  qed
qed

lemma fixed_2f_two_decimals:
  assumes "0 \<le> q"
  shows "\<exists>ds a b. fixed_2f q = ds @ ''.'' @ [a, b] \<and> ds \<noteq> []
     \<and> set (ds @ [a, b]) \<subseteq> set ''0123456789''"
proof -
  let ?c = "nat \<bar>round_half_even (q * 100)\<bar>"
  have "fixed_2f q = decimal_digits (?c div 100) @ ''.''
       @ [digit_char (?c div 10 mod 10), digit_char (?c mod 10)]"
    using assms by (simp add: fixed_2f_def Let_def)
  moreover have "decimal_digits (?c div 100) \<noteq> []"
    and "set (decimal_digits (?c div 100)) \<subseteq> set ''0123456789''"
    using decimal_digits_digits [of "?c div 100"] by simp_all
  moreover have "digit_char (?c div 10 mod 10) \<in> set ''0123456789''"
    and "digit_char (?c mod 10) \<in> set ''0123456789''"
    by (rule digit_char_digit, simp)+
  ultimately show ?thesis
    by (intro exI [of _ "decimal_digits (?c div 100)"] exI [of _ "digit_char (?c div 10 mod 10)"]
          exI [of _ "digit_char (?c mod 10)"]) simp
qed

end
